theory Spec2Isabelle
  imports Main "HOL-Library.Word"
begin

section \<open>The timer service of \<^verbatim>\<open>timer_service.h\<close> and its implementation file\<close>

text \<open>
  The service keeps a \<^verbatim>\<open>std::multimap<TimePoint, TimerData>\<close> of pending timers, a
  \<^verbatim>\<open>running_\<close> flag, the \<^verbatim>\<open>next_id_\<close> counter and one worker thread. Every access
  to the multimap happens inside a critical section on \<^verbatim>\<open>mutex_\<close>, so the model
  is an interleaving of atomic steps: one per critical section of \<^verbatim>\<open>schedule\<close>,
  \<^verbatim>\<open>cancel\<close> and the destructor, and one per program point of the worker loop.

  Modelling choices.
  \<^item> \<^verbatim>\<open>TimerId\<close> is \<^verbatim>\<open>uint64_t\<close>: a 64-bit word, \<^verbatim>\<open>next_id_++\<close> wraps.
  \<^item> Time points and durations are integers counted in ticks of the steady clock
    (chrono converts milliseconds to ticks exactly). The code holds them as signed
    64-bit counts and the model as unbounded integers: the sums of the model are those
    of the code as long as they lie between \<open>- 2\<^sup>6\<^sup>3\<close> and \<open>2\<^sup>6\<^sup>3 - 1\<close>, and beyond that
    range C++ leaves the sum undefined. \<open>within\<close> below states that range for the
    deadlines of a store.
  \<^item> \<^verbatim>\<open>repeat\<close> is a C++ \<^verbatim>\<open>int\<close>; the only arithmetic on it is the decrement of a
    positive value, which never overflows, so it is modelled as an integer.
  \<^item> A callback is an opaque value of type \<open>'cb\<close>; running it is an observation.
  \<^item> The multimap is the list of its (key, value) pairs in iteration order.
  \<^item> \<^verbatim>\<open>schedule\<close> reads the clock before it takes the lock; its step carries that
    reading, which may be older than the reading of a worker step that ran before it.
  \<^item> \<^verbatim>\<open>worker_\<close> reads \<^verbatim>\<open>it->first\<close> after \<^verbatim>\<open>timers_.erase(it)\<close> and after the unlock,
    through an iterator to a node that the erase has freed. What the read yields is
    what that node holds at the time. The node keeps the erased key until the allocator
    hands it out again; when it hands it to the \<^verbatim>\<open>emplace\<close> of a \<^verbatim>\<open>schedule\<close> call that
    runs in between, the node holds the key of the new entry. The model follows the
    node: a \<^verbatim>\<open>schedule\<close> call is an event of its own when its \<^verbatim>\<open>emplace\<close> is given the
    node that the worker has just freed.
\<close>

type_synonym TimerId = "64 word"
type_synonym TimePoint = int

text \<open>\<^verbatim>\<open>struct TimerData { TimerId id; std::function<void()> callback; int repeat;
  std::chrono::milliseconds period; }\<close>. The field \<^verbatim>\<open>id\<close> is named \<open>id_t\<close> here.\<close>

record 'cb TimerData =
  id_t :: TimerId
  callback :: 'cb
  repeat :: int
  period :: int

text \<open>The program points of \<^verbatim>\<open>worker_\<close> between which other threads can run:
  the top of the loop (this includes both condition-variable waits), the point after
  \<^verbatim>\<open>timers_.erase(it); lock.unlock()\<close>, the point just before \<^verbatim>\<open>data.callback()\<close>
  returns, and the point after the \<^verbatim>\<open>break\<close>. After the erase the worker holds the
  moved-out \<^verbatim>\<open>data\<close> and the iterator \<^verbatim>\<open>it\<close> to the freed node. In \<open>Erased t d\<close> the
  node still holds the key \<open>t\<close> that the pair was erased under; in \<open>Reused t k d\<close> the
  node has been handed to a later \<^verbatim>\<open>emplace\<close> and holds the key \<open>k\<close>. \<open>Calling t d\<close>
  remembers the key \<open>t\<close> the pair was erased under (the code has no use for it any
  more; the observation of the callback carries it).\<close>

datatype 'cb wpc =
    AtTop
  | Erased TimePoint "'cb TimerData"
  | Reused TimePoint TimePoint "'cb TimerData"
  | Calling TimePoint "'cb TimerData"
  | Exited

record 'cb TimerService =
  timers :: "(TimePoint \<times> 'cb TimerData) list"
  running :: bool
  next_id :: TimerId
  wpc :: "'cb wpc"

text \<open>\<^verbatim>\<open>std::multimap::emplace\<close>: the new pair goes to the upper bound of its key, that
  is behind every pair whose key is not greater.\<close>

fun emplace :: "TimePoint \<Rightarrow> 'v \<Rightarrow> (TimePoint \<times> 'v) list \<Rightarrow> (TimePoint \<times> 'v) list" where
  "emplace k v [] = [(k, v)]"
| "emplace k v ((k', v') # xs) =
     (if k' \<le> k then (k', v') # emplace k v xs else (k, v) # (k', v') # xs)"

text \<open>\<^verbatim>\<open>TimerService::TimerService() : running_(true), next_id_(1)\<close>; the worker thread
  starts at the top of its loop.\<close>

definition init :: "'cb TimerService" where
  "init = \<lparr>timers = [], running = True, next_id = 1, wpc = AtTop\<rparr>"

text \<open>\<^verbatim>\<open>schedule(delay, callback, arg, repeat)\<close>; \<open>now\<close> is the reading of
  \<^verbatim>\<open>steady_clock::now()\<close>, \<open>cb\<close> the closure over callback and argument.\<close>

definition schedule ::
  "TimePoint \<Rightarrow> int \<Rightarrow> 'cb \<Rightarrow> int \<Rightarrow> 'cb TimerService \<Rightarrow> TimerId \<times> 'cb TimerService" where
  "schedule now delay cb rep s =
     (let expiry = now + delay;
          i = next_id s
      in (i, s\<lparr>next_id := next_id s + 1,
                timers := emplace expiry
                   \<lparr>id_t = i, callback = cb, repeat = rep, period = delay\<rparr> (timers s)\<rparr>))"

text \<open>\<^verbatim>\<open>schedule_until(expiry, data)\<close>: the private insertion used by the worker.\<close>

definition schedule_until ::
  "TimePoint \<Rightarrow> 'cb TimerData \<Rightarrow> 'cb TimerService \<Rightarrow> TimerId \<times> 'cb TimerService" where
  "schedule_until expiry data s = (id_t data, s\<lparr>timers := emplace expiry data (timers s)\<rparr>)"

text \<open>The loop of \<^verbatim>\<open>cancel\<close>: the first pair whose \<^verbatim>\<open>second.id\<close> is the id is erased;
  \<open>None\<close> when the loop reaches \<^verbatim>\<open>timers_.end()\<close>.\<close>

fun erase_first :: "TimerId \<Rightarrow> (TimePoint \<times> 'cb TimerData) list
    \<Rightarrow> (TimePoint \<times> 'cb TimerData) list option" where
  "erase_first i [] = None"
| "erase_first i ((k, d) # xs) =
     (if id_t d = i then Some xs
      else (case erase_first i xs of None \<Rightarrow> None | Some ys \<Rightarrow> Some ((k, d) # ys)))"

definition cancel :: "TimerId \<Rightarrow> 'cb TimerService \<Rightarrow> bool \<times> 'cb TimerService" where
  "cancel i s =
     (case erase_first i (timers s) of
        None \<Rightarrow> (False, s)
      | Some ts \<Rightarrow> (True, s\<lparr>timers := ts\<rparr>))"

text \<open>The critical section of the destructor: \<^verbatim>\<open>running_ = false\<close>. Afterwards the
  destructor joins the worker.\<close>

definition shutdown :: "'cb TimerService \<Rightarrow> 'cb TimerService" where
  "shutdown s = s\<lparr>running := False\<rparr>"

text \<open>What one step lets the outside see.\<close>

datatype 'cb obs =
    Returned TimerId
  | Cancelled bool
  | Fired TimePoint "'cb TimerData"
  | Quiet

text \<open>The freed node that \<^verbatim>\<open>it\<close> points to is handed to an \<^verbatim>\<open>emplace\<close> that stores the
  key \<open>k\<close> in it. This matters only while the worker is between the erase and its read
  of \<^verbatim>\<open>it->first\<close>.\<close>

definition reuse :: "TimePoint \<Rightarrow> 'cb TimerService \<Rightarrow> 'cb TimerService" where
  "reuse k s =
     (case wpc s of
        Erased t d \<Rightarrow> s\<lparr>wpc := Reused t k d\<rparr>
      | Reused t k' d \<Rightarrow> s\<lparr>wpc := Reused t k d\<rparr>
      | _ \<Rightarrow> s)"

text \<open>One step of \<^verbatim>\<open>worker_\<close>; \<open>now\<close> is the clock reading of that step (only the
  top of the loop reads the clock). The key of the reinsertion is \<^verbatim>\<open>it->first + data.period\<close>,
  where \<^verbatim>\<open>it->first\<close> is what the freed node holds: \<open>t\<close> in \<open>Erased t d\<close>, \<open>k\<close> in
  \<open>Reused t k d\<close>.\<close>

definition worker :: "TimePoint \<Rightarrow> 'cb TimerService \<Rightarrow> 'cb obs \<times> 'cb TimerService" where
  "worker now s =
     (case wpc s of
        Exited \<Rightarrow> (Quiet, s)
      | AtTop \<Rightarrow>
          (if \<not> running s then (Quiet, s\<lparr>wpc := Exited\<rparr>)
           else (case timers s of
                   [] \<Rightarrow> (Quiet, s)
                 | (t, d) # rest \<Rightarrow>
                     (if t \<le> now then (Quiet, s\<lparr>timers := rest, wpc := Erased t d\<rparr>)
                      else (Quiet, s))))
      | Erased t d \<Rightarrow>
          (if repeat d \<noteq> 0 then
             (let d' = (if repeat d > 0 then d\<lparr>repeat := repeat d - 1\<rparr> else d)
              in (Quiet, (snd (schedule_until (t + period d') d' s))\<lparr>wpc := Calling t d'\<rparr>))
           else (Quiet, s\<lparr>wpc := Calling t d\<rparr>))
      | Reused t k d \<Rightarrow>
          (if repeat d \<noteq> 0 then
             (let d' = (if repeat d > 0 then d\<lparr>repeat := repeat d - 1\<rparr> else d)
              in (Quiet, (snd (schedule_until (k + period d') d' s))\<lparr>wpc := Calling t d'\<rparr>))
           else (Quiet, s\<lparr>wpc := Calling t d\<rparr>))
      | Calling t d \<Rightarrow> (Fired t d, s\<lparr>wpc := AtTop\<rparr>))"

text \<open>The calls and steps that other threads and the worker interleave. \<open>Schedule\<close> is
  a \<^verbatim>\<open>schedule\<close> call whose \<^verbatim>\<open>emplace\<close> gets a node of its own, \<open>ScheduleReusing\<close> one
  whose \<^verbatim>\<open>emplace\<close> gets the node the worker has freed.\<close>

datatype 'cb event =
    Schedule TimePoint int 'cb int
  | Cancel TimerId
  | Work TimePoint
  | Shutdown
  | ScheduleReusing TimePoint int 'cb int

fun step :: "'cb event \<Rightarrow> 'cb TimerService \<Rightarrow> 'cb obs \<times> 'cb TimerService" where
  "step (Schedule now delay cb rep) s =
     (case schedule now delay cb rep s of (i, s') \<Rightarrow> (Returned i, s'))"
| "step (Cancel i) s = (case cancel i s of (b, s') \<Rightarrow> (Cancelled b, s'))"
| "step (Work now) s = worker now s"
| "step Shutdown s = (Quiet, shutdown s)"
| "step (ScheduleReusing now delay cb rep) s =
     (case schedule now delay cb rep s of (i, s') \<Rightarrow> (Returned i, reuse (now + delay) s'))"

fun run :: "'cb event list \<Rightarrow> 'cb TimerService \<Rightarrow> 'cb obs list \<times> 'cb TimerService" where
  "run [] s = ([], s)"
| "run (e # es) s =
     (case step e s of (ob, s') \<Rightarrow> (case run es s' of (obs, s'') \<Rightarrow> (ob # obs, s'')))"

section \<open>Observations and invariants\<close>

text \<open>The ids of the pairs of a multimap, in iteration order.\<close>

definition ids :: "(TimePoint \<times> 'cb TimerData) list \<Rightarrow> TimerId list" where
  "ids ts = map (\<lambda>p. id_t (snd p)) ts"

text \<open>The callbacks run in a sequence of observations, each with the deadline it was
  erased under.\<close>

fun fired :: "'cb obs list \<Rightarrow> (TimePoint \<times> 'cb TimerData) list" where
  "fired [] = []"
| "fired (Fired t d # os) = (t, d) # fired os"
| "fired (_ # os) = fired os"

text \<open>Whether the worker is between erasing an entry and the return of its callback.\<close>

definition in_flight :: "'cb TimerService \<Rightarrow> nat" where
  "in_flight s =
     (case wpc s of Erased t d \<Rightarrow> 1 | Reused t k d \<Rightarrow> 1 | Calling t d \<Rightarrow> 1 | _ \<Rightarrow> 0)"

text \<open>The number of \<^verbatim>\<open>schedule\<close> calls in a sequence of events, and the ids they
  returned.\<close>

fun sched_count :: "'cb event list \<Rightarrow> nat" where
  "sched_count [] = 0"
| "sched_count (Schedule now delay cb rep # es) = Suc (sched_count es)"
| "sched_count (ScheduleReusing now delay cb rep # es) = Suc (sched_count es)"
| "sched_count (_ # es) = sched_count es"

fun returned :: "'cb obs list \<Rightarrow> TimerId list" where
  "returned [] = []"
| "returned (Returned i # os) = i # returned os"
| "returned (_ # os) = returned os"

text \<open>The ids of the entries that are in the store or will be reinserted (\<open>live\<close>) and
  the id of the entry in the worker's hands (\<open>held\<close>). After \<open>n\<close> calls of
  \<^verbatim>\<open>schedule\<close> the counter stands at \<open>n + 1\<close>, the live ids are pairwise distinct and all
  ids in use lie between 1 and \<open>n\<close>.\<close>

definition live :: "'cb TimerService \<Rightarrow> TimerId list" where
  "live s =
     ids (timers s)
     @ (case wpc s of Erased t d \<Rightarrow> [id_t d] | Reused t k d \<Rightarrow> [id_t d] | _ \<Rightarrow> [])"

definition held :: "'cb TimerService \<Rightarrow> TimerId list" where
  "held s =
     (case wpc s of
        Erased t d \<Rightarrow> [id_t d] | Reused t k d \<Rightarrow> [id_t d] | Calling t d \<Rightarrow> [id_t d]
      | _ \<Rightarrow> [])"

definition idinv :: "nat \<Rightarrow> 'cb TimerService \<Rightarrow> bool" where
  "idinv n s \<longleftrightarrow>
     next_id s = 1 + of_nat n \<and> distinct (live s) \<and>
     (\<forall>i\<in>set (live s) \<union> set (held s). 0 < unat i \<and> unat i \<le> n)"

text \<open>Worker steps among the events.\<close>

fun is_work :: "'cb event \<Rightarrow> bool" where
  "is_work (Work now) = True"
| "is_work _ = False"

text \<open>The number of \<^verbatim>\<open>cancel(i)\<close> calls in a sequence of events that return true.\<close>

fun cancel_hits :: "TimerId \<Rightarrow> 'cb event list \<Rightarrow> 'cb TimerService \<Rightarrow> nat" where
  "cancel_hits i [] s = 0"
| "cancel_hits i (e # es) s =
     (case e of Cancel j \<Rightarrow> (if j = i \<and> fst (cancel i s) then 1 else 0) | _ \<Rightarrow> 0)
     + cancel_hits i es (snd (step e s))"

text \<open>The clock readings of a sequence of events in the order of the steps, and whether
  every delay passed to \<^verbatim>\<open>schedule\<close> is non-negative.\<close>

fun clocks :: "'cb event list \<Rightarrow> TimePoint list" where
  "clocks [] = []"
| "clocks (Schedule now delay cb rep # es) = now # clocks es"
| "clocks (Work now # es) = now # clocks es"
| "clocks (ScheduleReusing now delay cb rep # es) = now # clocks es"
| "clocks (_ # es) = clocks es"

fun nonneg_delays :: "'cb event list \<Rightarrow> bool" where
  "nonneg_delays [] = True"
| "nonneg_delays (Schedule now delay cb rep # es) = (0 \<le> delay \<and> nonneg_delays es)"
| "nonneg_delays (ScheduleReusing now delay cb rep # es) = (0 \<le> delay \<and> nonneg_delays es)"
| "nonneg_delays (_ # es) = nonneg_delays es"

text \<open>The store is sorted, no deadline in it lies before \<open>L\<close>, periods are
  non-negative, an entry in the worker's hands was erased under the deadline \<open>L\<close>, and
  a key that a reused node holds does not lie before \<open>L\<close>.\<close>

definition ginv :: "TimePoint \<Rightarrow> 'cb TimerService \<Rightarrow> bool" where
  "ginv L s \<longleftrightarrow>
     sorted (map fst (timers s)) \<and>
     (\<forall>p\<in>set (timers s). L \<le> fst p \<and> 0 \<le> period (snd p)) \<and>
     (case wpc s of
        Erased t d \<Rightarrow> t = L \<and> 0 \<le> period d
      | Reused t k d \<Rightarrow> t = L \<and> L \<le> k \<and> 0 \<le> period d
      | Calling t d \<Rightarrow> t = L
      | _ \<Rightarrow> True)"

text \<open>The callbacks of id \<open>i\<close> run in a sequence of observations.\<close>

definition fired_of :: "TimerId \<Rightarrow> 'cb obs list \<Rightarrow> (TimePoint \<times> 'cb TimerData) list" where
  "fired_of i obs = filter (\<lambda>p. id_t (snd p) = i) (fired obs)"




text \<open>\<open>b\<close> does not occur before the first \<open>a\<close>.\<close>

fun precedes :: "TimerId \<Rightarrow> TimerId \<Rightarrow> TimerId list \<Rightarrow> bool" where
  "precedes a b [] = True"
| "precedes a b (x # xs) = (if x = a then True else if x = b then False else precedes a b xs)"

definition fired_ids :: "'cb obs list \<Rightarrow> TimerId list" where
  "fired_ids obs = map (\<lambda>x. id_t (snd x)) (fired obs)"

text \<open>The worker has A in its hands, or it does not have B and B is not ahead of A in
  the store.\<close>

definition ord :: "TimerId \<Rightarrow> TimerId \<Rightarrow> 'cb TimerService \<Rightarrow> bool" where
  "ord a b s \<longleftrightarrow> a \<in> set (held s) \<or> (b \<notin> set (held s) \<and> precedes a b (ids (timers s)))"

text \<open>The worker has A in its hands, or A is in the store with deadline \<open>D\<close>.\<close>

definition pending_at :: "TimerId \<Rightarrow> TimePoint \<Rightarrow> 'cb TimerService \<Rightarrow> bool" where
  "pending_at a D s \<longleftrightarrow>
     a \<in> set (held s) \<or> (D, a) \<in> set (map (\<lambda>p. (fst p, id_t (snd p))) (timers s))"



text \<open>Every deadline in the store, and every deadline that the reinsertions of these
  entries will compute, lies between \<open>lo\<close> and \<open>hi\<close>: counts and periods are
  non-negative and the last deadline of each entry, \<open>key + repeat * period\<close>, does not
  exceed \<open>hi\<close>. With \<open>lo = - 2\<^sup>6\<^sup>3\<close> and \<open>hi = 2\<^sup>6\<^sup>3 - 1\<close> these are the tick counts
  that a 64-bit \<^verbatim>\<open>time_point\<close> represents.\<close>

definition within :: "TimePoint \<Rightarrow> TimePoint \<Rightarrow> 'cb TimerService \<Rightarrow> bool" where
  "within lo hi s \<longleftrightarrow>
     (\<forall>p\<in>set (timers s). lo \<le> fst p \<and> 0 \<le> repeat (snd p) \<and> 0 \<le> period (snd p)
        \<and> fst p + repeat (snd p) * period (snd p) \<le> hi)
     \<and> (case wpc s of
          Erased t d \<Rightarrow> lo \<le> t \<and> 0 \<le> repeat d \<and> 0 \<le> period d \<and> t + repeat d * period d \<le> hi
        | Reused t k d \<Rightarrow> lo \<le> k \<and> 0 \<le> repeat d \<and> 0 \<le> period d \<and> k + repeat d * period d \<le> hi
        | _ \<Rightarrow> True)"

section \<open>Lemmas\<close>

subsection \<open>The multimap\<close>

lemma set_emplace: "set (emplace k v xs) = insert (k, v) (set xs)"
  by (induction k v xs rule: emplace.induct) auto

lemma sorted_emplace:
  "sorted (map fst xs) \<Longrightarrow> sorted (map fst (emplace k v xs))"
  by (induction k v xs rule: emplace.induct) (force simp: set_emplace)+

subsection \<open>Runs\<close>


lemma fired_append: "fired (xs @ ys) = fired xs @ fired ys"
  by (induction xs rule: fired.induct) auto

subsection \<open>The loop of cancel\<close>

lemma erase_first_None: "erase_first i ts = None \<longleftrightarrow> i \<notin> set (ids ts)"
  by (induction i ts rule: erase_first.induct) (auto simp: ids_def split: option.splits)

lemma erase_first_Some_ids:
  "erase_first i ts = Some ys \<Longrightarrow> ids ys = remove1 i (ids ts)"
  by (induction i ts arbitrary: ys rule: erase_first.induct)
     (auto simp: ids_def split: option.splits if_splits)

lemma erase_first_subset: "erase_first i ts = Some ys \<Longrightarrow> set ys \<subseteq> set ts"
  by (induction i ts arbitrary: ys rule: erase_first.induct)
     (auto split: option.splits if_splits)

lemma erase_first_sorted:
  "erase_first i ts = Some ys \<Longrightarrow> sorted (map fst ts) \<Longrightarrow> sorted (map fst ys)"
proof (induction i ts arbitrary: ys rule: erase_first.induct)
  case (1 i)
  then show ?case by simp
next
  case (2 i k d xs)
  show ?case
  proof (cases "id_t d = i")
    case True
    with 2 show ?thesis by simp
  next
    case False
    with "2.prems" obtain zs where zs: "erase_first i xs = Some zs" and ys: "ys = (k, d) # zs"
      by (auto split: option.splits)
    from "2.IH"[OF False zs] "2.prems" have "sorted (map fst zs)" by simp
    moreover from erase_first_subset[OF zs] "2.prems" have "\<forall>p\<in>set zs. k \<le> fst p"
      by auto
    ultimately show ?thesis using ys by simp
  qed
qed

subsection \<open>A reused node\<close>

lemma reuse_fields:
  "timers (reuse k s) = timers s"
  "running (reuse k s) = running s"
  "next_id (reuse k s) = next_id s"
  by (simp_all add: reuse_def split: wpc.splits)

lemma reuse_views:
  "live (reuse k s) = live s"
  "held (reuse k s) = held s"
  "in_flight (reuse k s) = in_flight s"
  by (simp_all add: reuse_def live_def held_def in_flight_def split: wpc.splits)


lemma step_snd:
  "snd (step (Schedule now delay cb rep) s) = snd (schedule now delay cb rep s)"
  "snd (step (Cancel i) s) = snd (cancel i s)"
  "snd (step (Work now) s) = snd (worker now s)"
  "snd (step Shutdown s) = shutdown s"
  "snd (step (ScheduleReusing now delay cb rep) s)
     = reuse (now + delay) (snd (schedule now delay cb rep s))"
  by (simp_all split: prod.splits)

lemma step_fst:
  "fst (step (Schedule now delay cb rep) s) = Returned (fst (schedule now delay cb rep s))"
  "fst (step (Cancel i) s) = Cancelled (fst (cancel i s))"
  "fst (step (Work now) s) = fst (worker now s)"
  "fst (step Shutdown s) = Quiet"
  "fst (step (ScheduleReusing now delay cb rep) s) = Returned (fst (schedule now delay cb rep s))"
  by (simp_all split: prod.splits)

subsection \<open>After shutdown\<close>

lemma step_not_running: "\<not> running s \<Longrightarrow> \<not> running (snd (step e s))"
  by (cases e)
     (auto simp: step_snd reuse_fields schedule_def cancel_def worker_def shutdown_def
                 schedule_until_def Let_def
           simp del: step.simps
           split: option.splits wpc.splits list.splits)

lemma schedule_in_flight: "in_flight (snd (schedule now delay cb rep s)) = in_flight s"
  by (simp add: schedule_def Let_def in_flight_def)

lemma step_stopped_fired:
  assumes "\<not> running s" and "step e s = (ob, s')"
  shows "length (fired [ob]) + in_flight s' \<le> in_flight s"
proof (cases e)
  case (ScheduleReusing now delay cb rep)
  with assms(2) have "ob = Returned (fst (schedule now delay cb rep s))"
    and "s' = reuse (now + delay) (snd (schedule now delay cb rep s))"
    by (auto split: prod.splits)
  then show ?thesis by (simp add: reuse_views schedule_in_flight)
qed (insert assms,
     auto simp: schedule_def cancel_def worker_def shutdown_def schedule_until_def
                Let_def in_flight_def
          split: option.splits wpc.splits list.splits if_splits)

lemma run_stopped_fired:
  "\<not> running s \<Longrightarrow> length (fired (fst (run es s))) \<le> in_flight s"
proof (induction es arbitrary: s)
  case Nil
  then show ?case by simp
next
  case (Cons e es)
  obtain ob s' where st: "step e s = (ob, s')" by (cases "step e s")
  obtain obs s'' where rn: "run es s' = (obs, s'')" by (cases "run es s'")
  from Cons.prems st have nr: "\<not> running s'" using step_not_running[of s e] by simp
  from Cons.IH[OF nr] rn have "length (fired obs) \<le> in_flight s'" by simp
  moreover from step_stopped_fired[OF Cons.prems st]
  have "length (fired [ob]) + in_flight s' \<le> in_flight s" .
  moreover have "fired (ob # obs) = fired [ob] @ fired obs"
    using fired_append[of "[ob]" obs] by simp
  ultimately show ?case using st rn by simp
qed

subsection \<open>Ids are fresh and distinct\<close>

lemma ids_emplace_set: "set (ids (emplace k v xs)) = insert (id_t v) (set (ids xs))"
  by (simp add: ids_def set_emplace)

lemma ids_emplace_distinct:
  "distinct (ids (emplace k v xs)) \<longleftrightarrow> id_t v \<notin> set (ids xs) \<and> distinct (ids xs)"
  by (induction k v xs rule: emplace.induct) (auto simp: ids_def set_emplace)

lemma idinv_init: "idinv 0 init"
  by (simp add: idinv_def init_def live_def held_def ids_def)

lemma ids_Nil: "ids [] = []"
  by (simp add: ids_def)

lemma ids_Cons: "ids (p # ps) = id_t (snd p) # ids ps"
  by (simp add: ids_def)

lemma unat_id_Suc: "Suc n < 2 ^ 64 \<Longrightarrow> unat (1 + of_nat n :: 64 word) = Suc n"
  using unat_of_nat[where 'a = 64 and x = "Suc n"] by simp

lemma idinv_schedule:
  assumes "idinv n s" "Suc n < 2 ^ 64"
  shows "idinv (Suc n) (snd (schedule now delay cb rep s))"
    and "fst (schedule now delay cb rep s) = 1 + of_nat n"
proof -
  have u: "unat (1 + of_nat n :: 64 word) = Suc n" using assms(2) by (rule unat_id_Suc)
  have fresh: "(1 + of_nat n :: 64 word) \<notin> set (live s)"
  proof
    assume "(1 + of_nat n :: 64 word) \<in> set (live s)"
    with assms(1) have "unat (1 + of_nat n :: 64 word) \<le> n" by (auto simp: idinv_def)
    with u show False by simp
  qed
  show "fst (schedule now delay cb rep s) = 1 + of_nat n"
    using assms(1) by (simp add: schedule_def idinv_def Let_def)
  show "idinv (Suc n) (snd (schedule now delay cb rep s))"
    using assms(1) fresh u
    by (auto simp: schedule_def idinv_def Let_def live_def held_def ids_emplace_set
                   ids_emplace_distinct
             split: wpc.splits intro: le_SucI)
qed

lemma idinv_cancel: "idinv n s \<Longrightarrow> idinv n (snd (cancel i s))"
  by (auto simp: cancel_def idinv_def live_def held_def erase_first_Some_ids
           split: option.splits wpc.splits dest: notin_set_remove1)

lemma idinv_worker: "idinv n s \<Longrightarrow> idinv n (snd (worker now s))"
  by (auto simp: worker_def idinv_def live_def held_def schedule_until_def Let_def
                 ids_emplace_set ids_emplace_distinct ids_Nil ids_Cons
           split: wpc.splits list.splits)

lemma idinv_shutdown: "idinv n s \<Longrightarrow> idinv n (shutdown s)"
  by (simp add: idinv_def shutdown_def live_def held_def)

lemma idinv_reuse: "idinv n s \<Longrightarrow> idinv n (reuse k s)"
  by (simp add: idinv_def reuse_views reuse_fields)

lemma idinv_step:
  assumes "idinv n s" "n + sched_count [e] < 2 ^ 64"
  shows "idinv (n + sched_count [e]) (snd (step e s))"
proof (cases e)
  case (Schedule now delay cb rep)
  with assms(2) have "Suc n < 2 ^ 64" by simp
  from idinv_schedule(1)[OF assms(1) this, of now delay cb rep]
  show ?thesis using Schedule by (simp add: step_snd del: step.simps)
next
  case (Cancel j)
  with idinv_cancel[OF assms(1), of j] show ?thesis by (simp add: step_snd del: step.simps)
next
  case (Work t)
  with idinv_worker[OF assms(1), of t] show ?thesis by simp
next
  case Shutdown
  with idinv_shutdown[OF assms(1)] show ?thesis by simp
next
  case (ScheduleReusing now delay cb rep)
  with assms(2) have "Suc n < 2 ^ 64" by simp
  from idinv_reuse[OF idinv_schedule(1)[OF assms(1) this, of now delay cb rep]]
  show ?thesis using ScheduleReusing by (simp add: step_snd del: step.simps)
qed

lemma sched_count_Cons: "sched_count (e # es) = sched_count [e] + sched_count es"
  by (cases e) auto

lemma run_Cons_snd: "snd (run (e # es) s) = snd (run es (snd (step e s)))"
  by (simp split: prod.splits)

lemma run_Cons_fst: "fst (run (e # es) s) = fst (step e s) # fst (run es (snd (step e s)))"
  by (simp split: prod.splits)

lemma idinv_run:
  "idinv n s \<Longrightarrow> n + sched_count es < 2 ^ 64 \<Longrightarrow>
     idinv (n + sched_count es) (snd (run es s))"
proof (induction es arbitrary: n s)
  case Nil
  then show ?case by simp
next
  case (Cons e es)
  have b: "n + sched_count [e] + sched_count es < 2 ^ 64"
    using Cons.prems(2) sched_count_Cons[of e es] by simp
  then have "n + sched_count [e] < 2 ^ 64" by simp
  from idinv_step[OF Cons.prems(1) this]
  have "idinv (n + sched_count [e]) (snd (step e s))" .
  from Cons.IH[OF this b] show ?case
    using sched_count_Cons[of e es] by (simp add: run_Cons_snd add.assoc del: run.simps)
qed

subsection \<open>An id that has left the service does not come back\<close>

lemma live_schedule:
  "set (live (snd (schedule now delay cb rep s))) = insert (next_id s) (set (live s))"
  by (auto simp: schedule_def Let_def live_def ids_emplace_set split: wpc.splits)

lemma live_step_subset:
  "set (live (snd (step e s))) \<subseteq>
     set (live s) \<union> (case e of Schedule a b c d \<Rightarrow> {next_id s}
                        | ScheduleReusing a b c d \<Rightarrow> {next_id s} | _ \<Rightarrow> {})"
proof (cases e)
  case (ScheduleReusing now delay cb rep)
  then show ?thesis by (simp add: step_snd reuse_views live_schedule del: step.simps)
next
  case (Schedule now delay cb rep)
  then show ?thesis by (simp add: step_snd live_schedule del: step.simps)
qed (auto simp: cancel_def worker_def shutdown_def schedule_until_def Let_def
                live_def ids_emplace_set ids_Nil ids_Cons erase_first_Some_ids
          split: option.splits wpc.splits list.splits if_splits
          dest: notin_set_remove1 set_remove1_subset[THEN subsetD])

lemma dead_step:
  assumes "idinv n s" "n + sched_count [e] < 2 ^ 64" "i \<notin> set (live s)" "unat i \<le> n"
  shows "i \<notin> set (live (snd (step e s)))"
proof (cases e)
  case (Schedule a b c d)
  with assms(2) have "Suc n < 2 ^ 64" by simp
  then have "unat (1 + of_nat n :: 64 word) = Suc n" by (rule unat_id_Suc)
  with assms(4) have "i \<noteq> 1 + of_nat n" by auto
  moreover from assms(1) have "next_id s = 1 + of_nat n" by (simp add: idinv_def)
  ultimately show ?thesis
    using live_step_subset[of e s] assms(3) Schedule by auto
next
  case (Cancel j)
  then show ?thesis using live_step_subset[of e s] assms(3) by auto
next
  case (Work t)
  then show ?thesis using live_step_subset[of e s] assms(3) by auto
next
  case Shutdown
  then show ?thesis using live_step_subset[of e s] assms(3) by auto
next
  case (ScheduleReusing a b c d)
  with assms(2) have "Suc n < 2 ^ 64" by simp
  then have "unat (1 + of_nat n :: 64 word) = Suc n" by (rule unat_id_Suc)
  with assms(4) have "i \<noteq> 1 + of_nat n" by auto
  moreover from assms(1) have "next_id s = 1 + of_nat n" by (simp add: idinv_def)
  ultimately show ?thesis
    using live_step_subset[of e s] assms(3) ScheduleReusing by auto
qed

lemma dead_run:
  "idinv n s \<Longrightarrow> n + sched_count es < 2 ^ 64 \<Longrightarrow> i \<notin> set (live s) \<Longrightarrow> unat i \<le> n \<Longrightarrow>
     i \<notin> set (live (snd (run es s))) \<and> cancel_hits i es s = 0"
proof (induction es arbitrary: n s)
  case Nil
  then show ?case by simp
next
  case (Cons e es)
  have b: "n + sched_count [e] + sched_count es < 2 ^ 64"
    using Cons.prems(2) sched_count_Cons[of e es] by simp
  then have b1: "n + sched_count [e] < 2 ^ 64" by simp
  have inv': "idinv (n + sched_count [e]) (snd (step e s))"
    by (rule idinv_step[OF Cons.prems(1) b1])
  have dead': "i \<notin> set (live (snd (step e s)))"
    by (rule dead_step[OF Cons.prems(1) b1 Cons.prems(3,4)])
  have le': "unat i \<le> n + sched_count [e]" using Cons.prems(4) by simp
  from Cons.IH[OF inv' b dead' le']
  have ih: "i \<notin> set (live (snd (run es (snd (step e s)))))"
    "cancel_hits i es (snd (step e s)) = 0" by simp_all
  have "\<not> fst (cancel i s)"
    using Cons.prems(3) by (auto simp: cancel_def live_def erase_first_None split: option.splits)
  with ih show ?case by (simp add: run_Cons_snd del: run.simps split: event.splits)
qed

lemma cancel_hit_dead:
  assumes "idinv n s" "fst (cancel i s)"
  shows "i \<notin> set (live (snd (cancel i s)))" and "unat i \<le> n"
proof -
  from assms(2) obtain ys where ys: "erase_first i (timers s) = Some ys"
    by (auto simp: cancel_def split: option.splits)
  then have mem: "i \<in> set (ids (timers s))" using erase_first_None[of i "timers s"] by auto
  then have "i \<in> set (live s)" by (simp add: live_def)
  with assms(1) show "unat i \<le> n" by (auto simp: idinv_def)
  from assms(1) have d: "distinct (live s)" by (simp add: idinv_def)
  from ys have "live (snd (cancel i s)) = remove1 i (live s)"
    using mem by (simp add: cancel_def live_def erase_first_Some_ids remove1_append)
  with d show "i \<notin> set (live (snd (cancel i s)))" by simp
qed

lemma cancel_hits_le_1:
  "idinv n s \<Longrightarrow> n + sched_count es < 2 ^ 64 \<Longrightarrow> cancel_hits i es s \<le> 1"
proof (induction es arbitrary: n s)
  case Nil
  then show ?case by simp
next
  case (Cons e es)
  have b: "n + sched_count [e] + sched_count es < 2 ^ 64"
    using Cons.prems(2) sched_count_Cons[of e es] by simp
  then have b1: "n + sched_count [e] < 2 ^ 64" by simp
  have inv': "idinv (n + sched_count [e]) (snd (step e s))"
    by (rule idinv_step[OF Cons.prems(1) b1])
  show ?case
  proof (cases "e = Cancel i \<and> fst (cancel i s)")
    case True
    then have e: "e = Cancel i" and hit: "fst (cancel i s)" by simp_all
    have st: "snd (step e s) = snd (cancel i s)" using e by (simp add: step_snd del: step.simps)
    from cancel_hit_dead[OF Cons.prems(1) hit]
    have "i \<notin> set (live (snd (step e s)))" "unat i \<le> n + sched_count [e]"
      using st by simp_all
    from dead_run[OF inv' b this] have "cancel_hits i es (snd (step e s)) = 0" by simp
    then show ?thesis using e hit by simp
  next
    case False
    then have "(case e of Cancel j \<Rightarrow> (if j = i \<and> fst (cancel i s) then 1 else 0) | _ \<Rightarrow> 0) = (0::nat)"
      by (auto split: event.splits)
    moreover from Cons.IH[OF inv' b] have "cancel_hits i es (snd (step e s)) \<le> 1" .
    ultimately show ?thesis by simp
  qed
qed

lemma erase_first_filter:
  "erase_first i ts = Some ys \<Longrightarrow> distinct (ids ts) \<Longrightarrow>
     ys = filter (\<lambda>p. id_t (snd p) \<noteq> i) ts"
proof (induction i ts arbitrary: ys rule: erase_first.induct)
  case (1 i)
  then show ?case by simp
next
  case (2 i k d xs)
  show ?case
  proof (cases "id_t d = i")
    case True
    with "2.prems" have "ys = xs" "i \<notin> set (ids xs)" by (simp_all add: ids_Cons)
    moreover have "i \<notin> set (ids xs) \<Longrightarrow> filter (\<lambda>p. id_t (snd p) \<noteq> i) xs = xs"
      by (induction xs) (auto simp: ids_def)
    ultimately show ?thesis using True by simp
  next
    case False
    with "2.prems" obtain zs where zs: "erase_first i xs = Some zs" and ys: "ys = (k, d) # zs"
      by (auto split: option.splits)
    from "2.prems" have "distinct (ids xs)" by (simp add: ids_Cons)
    from "2.IH"[OF False zs this] ys False show ?thesis by simp
  qed
qed

lemma returned_run:
  "idinv n s \<Longrightarrow> n + sched_count es < 2 ^ 64 \<Longrightarrow>
     map unat (returned (fst (run es s))) = [Suc n..<Suc (n + sched_count es)]"
proof (induction es arbitrary: n s)
  case Nil
  then show ?case by simp
next
  case (Cons e es)
  have b: "n + sched_count [e] + sched_count es < 2 ^ 64"
    using Cons.prems(2) sched_count_Cons[of e es] by simp
  then have b1: "n + sched_count [e] < 2 ^ 64" by simp
  have inv': "idinv (n + sched_count [e]) (snd (step e s))"
    by (rule idinv_step[OF Cons.prems(1) b1])
  note ih = Cons.IH[OF inv' b]
  show ?case
  proof (cases e)
    case (Schedule now delay cb rep)
    with b1 have sn: "Suc n < 2 ^ 64" by simp
    have "fst (step e s) = Returned (1 + of_nat n)"
      using idinv_schedule(2)[OF Cons.prems(1) sn, of now delay cb rep] Schedule
      by (simp add: step_fst del: step.simps)
    moreover have "unat (1 + of_nat n :: 64 word) = Suc n" using sn by (rule unat_id_Suc)
    ultimately show ?thesis using ih Schedule
      by (simp add: run_Cons_fst upt_conv_Cons del: run.simps step.simps)
  next
    case (Cancel j)
    then show ?thesis using ih by (simp add: run_Cons_fst step_fst del: run.simps step.simps)
  next
    case (Work t)
    have "\<And>i. fst (worker t s) \<noteq> Returned i"
      by (auto simp: worker_def Let_def split: wpc.splits list.splits)
    then have "returned (fst (worker t s) # xs) = returned xs" for xs
      by (cases "fst (worker t s)") auto
    then show ?thesis using ih Work by (simp add: run_Cons_fst step_fst del: run.simps step.simps)
  next
    case Shutdown
    then show ?thesis using ih by (simp add: run_Cons_fst step_fst del: run.simps step.simps)
  next
    case (ScheduleReusing now delay cb rep)
    with b1 have sn: "Suc n < 2 ^ 64" by simp
    have "fst (step e s) = Returned (1 + of_nat n)"
      using idinv_schedule(2)[OF Cons.prems(1) sn, of now delay cb rep] ScheduleReusing
      by (simp add: step_fst del: step.simps)
    moreover have "unat (1 + of_nat n :: 64 word) = Suc n" using sn by (rule unat_id_Suc)
    ultimately show ?thesis using ih ScheduleReusing
      by (simp add: run_Cons_fst upt_conv_Cons del: run.simps step.simps)
  qed
qed

subsection \<open>Steps of other threads\<close>





subsection \<open>Callbacks after shutdown\<close>

lemma fired_Cons: "fired (ob # obs) = fired [ob] @ fired obs"
  by (cases ob) simp_all

lemma schedule_held: "held (snd (schedule now delay cb rep s)) = held s"
  by (simp add: schedule_def Let_def held_def)

lemma step_stopped_held:
  assumes "\<not> running s"
  shows "(\<forall>x\<in>set (fired [fst (step e s)]). id_t (snd x) \<in> set (held s))
     \<and> set (held (snd (step e s))) \<subseteq> set (held s)"
proof (cases e)
  case (ScheduleReusing now delay cb rep)
  then show ?thesis by (simp add: step_snd step_fst reuse_views schedule_held del: step.simps)
qed (insert assms,
     auto simp: schedule_def cancel_def worker_def shutdown_def schedule_until_def Let_def
                held_def
          split: option.splits wpc.splits list.splits if_splits)

lemma run_stopped_held:
  "\<not> running s \<Longrightarrow> \<forall>x\<in>set (fired (fst (run es s))). id_t (snd x) \<in> set (held s)"
proof (induction es arbitrary: s)
  case Nil
  then show ?case by simp
next
  case (Cons e es)
  from Cons.prems have nr: "\<not> running (snd (step e s))" by (rule step_not_running)
  from Cons.IH[OF nr]
  have ih: "\<forall>x\<in>set (fired (fst (run es (snd (step e s))))).
              id_t (snd x) \<in> set (held (snd (step e s)))" .
  note st = step_stopped_held[OF Cons.prems, of e]
  have eq: "fired (fst (run (e # es) s))
      = fired [fst (step e s)] @ fired (fst (run es (snd (step e s))))"
    unfolding run_Cons_fst by (rule fired_Cons)
  show ?case unfolding eq using ih st by auto
qed

subsection \<open>The store stays sorted; deadlines of fired entries\<close>

lemma sorted_worker:
  "sorted (map fst (timers s)) \<Longrightarrow> sorted (map fst (timers (snd (worker now s))))"
  by (cases "wpc s"; cases "timers s")
     (auto simp: worker_def schedule_until_def Let_def sorted_emplace)

lemma sorted_step:
  "sorted (map fst (timers s)) \<Longrightarrow> sorted (map fst (timers (snd (step e s))))"
  by (cases e)
     (auto simp: reuse_fields schedule_def cancel_def shutdown_def Let_def
                 sorted_emplace erase_first_sorted sorted_worker
           split: option.splits)

lemma sorted_run:
  "sorted (map fst (timers s)) \<Longrightarrow> sorted (map fst (timers (snd (run es s))))"
  by (induction es arbitrary: s) (simp_all add: run_Cons_snd sorted_step del: run.simps(2))

lemma clocks_Cons: "clocks (e # es) = clocks [e] @ clocks es"
  by (cases e) simp_all

lemma nonneg_delays_Cons: "nonneg_delays (e # es) \<longleftrightarrow> nonneg_delays [e] \<and> nonneg_delays es"
  by (cases e) simp_all

lemma ginv_schedule:
  "ginv L s \<Longrightarrow> L \<le> now \<Longrightarrow> 0 \<le> delay \<Longrightarrow> ginv L (snd (schedule now delay cb rep s))"
  by (auto simp: ginv_def schedule_def Let_def sorted_emplace set_emplace split: wpc.splits)

lemma ginv_reuse: "ginv L s \<Longrightarrow> L \<le> k \<Longrightarrow> ginv L (reuse k s)"
  by (auto simp: ginv_def reuse_def split: wpc.splits)

lemma ginv_step:
  assumes "ginv L s" and "\<forall>c\<in>set (clocks [e]). L \<le> c" and "nonneg_delays [e]"
  shows "\<exists>L'. L \<le> L' \<and> ginv L' (snd (step e s)) \<and> (\<forall>c\<in>set (clocks [e]). L' \<le> c)
            \<and> (clocks [e] = [] \<longrightarrow> L' = L)
            \<and> (\<forall>x\<in>set (fired [fst (step e s)]). fst x = L)"
proof (cases e)
  case (Schedule now delay cb rep)
  with assms have "ginv L (snd (step e s))"
    using ginv_schedule[of L s now delay cb rep] by (simp add: step_snd del: step.simps)
  moreover have "fired [fst (step e s)] = []" using Schedule by (simp add: schedule_def Let_def)
  ultimately show ?thesis using assms(2) by (intro exI[of _ L]) simp
next
  case (ScheduleReusing now delay cb rep)
  with assms(2,3) have b: "L \<le> now" "0 \<le> delay" by simp_all
  then have "L \<le> now + delay" by simp
  from ginv_reuse[OF ginv_schedule[OF assms(1) b, of cb rep] this]
  have "ginv L (snd (step e s))" using ScheduleReusing by (simp add: step_snd del: step.simps)
  moreover have "fired [fst (step e s)] = []"
    using ScheduleReusing by (simp add: step_fst del: step.simps)
  ultimately show ?thesis using assms(2) by (intro exI[of _ L]) simp
next
  case (Cancel j)
  with assms have "ginv L (snd (step e s))"
    by (auto simp: ginv_def cancel_def erase_first_sorted
             split: option.splits wpc.splits dest: erase_first_subset)
  moreover have "fired [fst (step e s)] = []" using Cancel by (simp add: cancel_def split: option.splits)
  ultimately show ?thesis using assms(2) by (intro exI[of _ L]) simp
next
  case Shutdown
  with assms have "ginv L (snd (step e s))" by (auto simp: ginv_def shutdown_def)
  moreover have "fired [fst (step e s)] = []" using Shutdown by simp
  ultimately show ?thesis using assms(2) by (intro exI[of _ L]) simp
next
  case (Work now)
  show ?thesis
  proof (cases "wpc s")
    case AtTop
    show ?thesis
    proof (cases "running s \<and> timers s \<noteq> [] \<and> fst (hd (timers s)) \<le> now")
      case True
      then obtain t d rest where ts: "timers s = (t, d) # rest" and due: "t \<le> now"
        by (cases "timers s") auto
      have st: "snd (step e s) = s\<lparr>timers := rest, wpc := Erased t d\<rparr>"
        and ob: "fst (step e s) = Quiet"
        using Work AtTop True ts due by (simp_all add: worker_def)
      have "ginv t (snd (step e s))" using assms(1) ts unfolding st by (auto simp: ginv_def)
      moreover have "L \<le> t" using assms(1) ts by (auto simp: ginv_def)
      ultimately show ?thesis using due ob Work by (intro exI[of _ t]) simp
    next
      case False
      then have "snd (step e s) = s \<or> snd (step e s) = s\<lparr>wpc := Exited\<rparr>"
        and ob: "fst (step e s) = Quiet"
        using Work AtTop by (auto simp: worker_def split: list.splits)
      with assms(1) AtTop have "ginv L (snd (step e s))" by (auto simp: ginv_def)
      then show ?thesis using ob assms(2) by (intro exI[of _ L]) simp
    qed
  next
    case (Erased t d)
    with assms(1) Work have "ginv L (snd (step e s))"
      by (auto simp: ginv_def worker_def schedule_until_def Let_def sorted_emplace set_emplace)
    moreover have "fst (step e s) = Quiet" using Work Erased by (simp add: worker_def Let_def)
    ultimately show ?thesis using assms(2) by (intro exI[of _ L]) simp
  next
    case (Reused t k d)
    with assms(1) Work have "ginv L (snd (step e s))"
      by (auto simp: ginv_def worker_def schedule_until_def Let_def sorted_emplace set_emplace)
    moreover have "fst (step e s) = Quiet" using Work Reused by (simp add: worker_def Let_def)
    ultimately show ?thesis using assms(2) by (intro exI[of _ L]) simp
  next
    case (Calling t d)
    with assms(1) Work have "ginv L (snd (step e s))" and "t = L"
      by (auto simp: ginv_def worker_def)
    moreover have "fst (step e s) = Fired t d" using Work Calling by (simp add: worker_def)
    ultimately show ?thesis using assms(2) by (intro exI[of _ L]) simp
  next
    case Exited
    with assms(1) Work have "ginv L (snd (step e s))" by (auto simp: ginv_def worker_def)
    moreover have "fst (step e s) = Quiet" using Work Exited by (simp add: worker_def)
    ultimately show ?thesis using assms(2) by (intro exI[of _ L]) simp
  qed
qed

lemma ginv_run:
  "ginv L s \<Longrightarrow> nonneg_delays es \<Longrightarrow> sorted (clocks es) \<Longrightarrow> \<forall>c\<in>set (clocks es). L \<le> c \<Longrightarrow>
     sorted (map fst (fired (fst (run es s)))) \<and> (\<forall>x\<in>set (fired (fst (run es s))). L \<le> fst x)"
proof (induction es arbitrary: L s)
  case Nil
  then show ?case by simp
next
  case (Cons e es)
  have nd: "nonneg_delays [e]" "nonneg_delays es"
    using Cons.prems(2) nonneg_delays_Cons[of e es] by simp_all
  have cl: "sorted (clocks [e] @ clocks es)" "\<forall>c\<in>set (clocks [e] @ clocks es). L \<le> c"
    using Cons.prems(3,4) clocks_Cons[of e es] by simp_all
  then have c1: "\<forall>c\<in>set (clocks [e]). L \<le> c" by simp
  from ginv_step[OF Cons.prems(1) c1 nd(1)]
  obtain L' where L': "L \<le> L'" "ginv L' (snd (step e s))" "\<forall>c\<in>set (clocks [e]). L' \<le> c"
    "clocks [e] = [] \<longrightarrow> L' = L" "\<forall>x\<in>set (fired [fst (step e s)]). fst x = L"
    by blast
  have c2: "\<forall>c\<in>set (clocks es). L' \<le> c"
  proof (cases "clocks [e]")
    case Nil
    with L'(4) cl(2) show ?thesis by simp
  next
    case (Cons c0 cs)
    with L'(3) have "L' \<le> c0" by simp
    moreover from cl(1) Cons have "\<forall>c\<in>set (clocks es). c0 \<le> c" by (auto simp: sorted_append)
    ultimately show ?thesis by fastforce
  qed
  have s2: "sorted (clocks es)" using cl(1) by (simp add: sorted_append)
  from Cons.IH[OF L'(2) nd(2) s2 c2]
  have ih: "sorted (map fst (fired (fst (run es (snd (step e s))))))"
    "\<forall>x\<in>set (fired (fst (run es (snd (step e s))))). L' \<le> fst x" by simp_all
  have eq: "fired (fst (run (e # es) s))
      = fired [fst (step e s)] @ fired (fst (run es (snd (step e s))))"
    unfolding run_Cons_fst by (rule fired_Cons)
  have one: "sorted (map fst (fired [fst (step e s)]))"
    by (cases "fst (step e s)") simp_all
  show ?case unfolding eq using ih L'(1,5) one
    by (fastforce simp: sorted_append)
qed

subsection \<open>Callback runs owed to an id\<close>








lemma next_id_fresh:
  assumes "idinv n s" and "unat i \<le> n" and "Suc n < 2 ^ 64"
  shows "next_id s \<noteq> i"
proof
  assume "next_id s = i"
  with assms(1) have "i = 1 + of_nat n" by (simp add: idinv_def)
  with unat_id_Suc[OF assms(3)] assms(2) show False by simp
qed



subsection \<open>A worker that keeps running\<close>





subsection \<open>Equal deadlines\<close>

lemma precedes_absent: "b \<notin> set xs \<Longrightarrow> precedes a b xs"
  by (induction xs) auto

lemma precedes_append_absent:
  "b \<notin> set xs \<Longrightarrow> precedes a b (xs @ ys) \<longleftrightarrow> a \<in> set xs \<or> precedes a b ys"
  by (induction xs) auto

lemma precedes_remove1: "j \<noteq> a \<Longrightarrow> precedes a b xs \<Longrightarrow> precedes a b (remove1 j xs)"
  by (induction xs) (auto split: if_splits)

lemma precedes_emplace_other:
  "id_t v \<noteq> a \<Longrightarrow> id_t v \<noteq> b \<Longrightarrow> precedes a b (ids ts) \<Longrightarrow>
     precedes a b (ids (emplace k v ts))"
  by (induction k v ts rule: emplace.induct) (auto simp: ids_Nil ids_Cons split: if_splits)

lemma precedes_emplace_tie:
  "sorted (map fst ts) \<Longrightarrow> (k, a) \<in> set (map (\<lambda>p. (fst p, id_t (snd p))) ts) \<Longrightarrow>
   b \<notin> set (ids ts) \<Longrightarrow> id_t v = b \<Longrightarrow> a \<noteq> b \<Longrightarrow>
     precedes a b (ids (emplace k v ts))"
proof (induction k v ts rule: emplace.induct)
  case (1 k v)
  then show ?case by simp
next
  case (2 k v k' v' xs)
  show ?case
  proof (cases "k' \<le> k")
    case True
    show ?thesis
    proof (cases "id_t v' = a")
      case True
      with \<open>k' \<le> k\<close> show ?thesis by (simp add: ids_Cons)
    next
      case False
      with "2.prems"(2) have mem: "(k, a) \<in> set (map (\<lambda>p. (fst p, id_t (snd p))) xs)" by auto
      from "2.prems" have "sorted (map fst xs)" "b \<notin> set (ids xs)" "id_t v' \<noteq> b"
        by (auto simp: ids_Cons)
      with "2.IH"[OF True _ mem] "2.prems"(4,5) True False show ?thesis
        by (simp add: ids_Cons)
    qed
  next
    case False
    from "2.prems"(1,2) have "k' \<le> k" by auto
    with False show ?thesis by simp
  qed
qed

lemma fired_ids_Cons: "fired_ids (ob # obs) = fired_ids [ob] @ fired_ids obs"
  unfolding fired_ids_def using fired_Cons[of ob obs] by simp

lemma fired_ids_append: "fired_ids (xs @ ys) = fired_ids xs @ fired_ids ys"
  by (simp add: fired_ids_def fired_append)

lemma fired_bounded_step:
  "idinv n s \<Longrightarrow> \<forall>j\<in>set (fired_ids [fst (step e s)]). unat j \<le> n"
  by (cases e)
     (auto simp: fired_ids_def idinv_def held_def worker_def schedule_def cancel_def Let_def
           split: wpc.splits list.splits option.splits)

lemma fired_bounded_run:
  "idinv n s \<Longrightarrow> n + sched_count es < 2 ^ 64 \<Longrightarrow>
     \<forall>j\<in>set (fired_ids (fst (run es s))). unat j \<le> n + sched_count es"
proof (induction es arbitrary: n s)
  case Nil
  then show ?case by (simp add: fired_ids_def)
next
  case (Cons e es)
  have b: "n + sched_count [e] + sched_count es < 2 ^ 64"
    using Cons.prems(2) sched_count_Cons[of e es] by simp
  then have b1: "n + sched_count [e] < 2 ^ 64" by simp
  have inv': "idinv (n + sched_count [e]) (snd (step e s))"
    by (rule idinv_step[OF Cons.prems(1) b1])
  from Cons.IH[OF inv' b]
  have ih: "\<forall>j\<in>set (fired_ids (fst (run es (snd (step e s))))).
              unat j \<le> n + sched_count [e] + sched_count es" .
  have eq: "fired_ids (fst (run (e # es) s))
      = fired_ids [fst (step e s)] @ fired_ids (fst (run es (snd (step e s))))"
    unfolding run_Cons_fst by (rule fired_ids_Cons)
  show ?case
    unfolding eq sched_count_Cons[of e es]
    using ih fired_bounded_step[OF Cons.prems(1), of e] by fastforce
qed

lemma erase_first_keeps:
  "erase_first j ts = Some ys \<Longrightarrow> p \<in> set ts \<Longrightarrow> id_t (snd p) \<noteq> j \<Longrightarrow> p \<in> set ys"
  by (induction j ts arbitrary: ys rule: erase_first.induct)
     (auto split: option.splits if_splits)

lemma fired_ids_worker:
  "fired_ids [fst (worker now s)] = (case wpc s of Calling t d \<Rightarrow> [id_t d] | _ \<Rightarrow> [])"
  by (cases "wpc s"; cases "timers s") (auto simp: worker_def fired_ids_def Let_def)

lemma fired_ids_nowork: "\<not> is_work e \<Longrightarrow> fired_ids [fst (step e s)] = []"
  by (cases e) (simp_all add: fired_ids_def split: prod.splits)

lemma ord_worker:
  assumes "ord a b s" and "a \<noteq> b"
  shows "b \<notin> set (fired_ids [fst (worker now s)])
       \<and> (a \<in> set (fired_ids [fst (worker now s)]) \<or> ord a b (snd (worker now s)))"
proof (cases "wpc s")
  case AtTop
  with assms have p: "precedes a b (ids (timers s))" by (simp add: ord_def held_def)
  have f: "fired_ids [fst (worker now s)] = []" using AtTop by (simp add: fired_ids_worker)
  have "ord a b (snd (worker now s))"
  proof (cases "timers s")
    case Nil
    with AtTop show ?thesis by (auto simp: worker_def ord_def held_def ids_Nil)
  next
    case (Cons q rest)
    obtain t d where q: "q = (t, d)" by (cases q)
    from p Cons q assms(2) AtTop show ?thesis
      by (auto simp: worker_def ord_def held_def ids_Cons split: if_splits)
  qed
  with f show ?thesis by simp
next
  case (Erased t d)
  define d' where "d' = (if 0 < repeat d then d\<lparr>repeat := repeat d - 1\<rparr> else d)"
  have d': "id_t d' = id_t d" by (simp add: d'_def)
  have w: "snd (worker now s) =
        (if repeat d \<noteq> 0
         then s\<lparr>timers := emplace (t + period d) d' (timers s), wpc := Calling t d'\<rparr>
         else s\<lparr>wpc := Calling t d'\<rparr>)"
    using Erased by (simp add: worker_def schedule_until_def Let_def d'_def)
  show ?thesis
  proof (cases "id_t d = a")
    case True
    with Erased d' show ?thesis unfolding w by (auto simp: fired_ids_worker ord_def held_def)
  next
    case False
    with assms Erased have nb: "id_t d \<noteq> b" and p: "precedes a b (ids (timers s))"
      by (auto simp: ord_def held_def)
    from precedes_emplace_other[of d' a b "timers s" "t + period d"] False nb d' p
    have "precedes a b (ids (emplace (t + period d) d' (timers s)))" by simp
    with p nb d' Erased show ?thesis
      unfolding w by (auto simp: fired_ids_worker ord_def held_def)
  qed
next
  case (Reused t k d)
  define d' where "d' = (if 0 < repeat d then d\<lparr>repeat := repeat d - 1\<rparr> else d)"
  have d': "id_t d' = id_t d" by (simp add: d'_def)
  have w: "snd (worker now s) =
        (if repeat d \<noteq> 0
         then s\<lparr>timers := emplace (k + period d) d' (timers s), wpc := Calling t d'\<rparr>
         else s\<lparr>wpc := Calling t d'\<rparr>)"
    using Reused by (simp add: worker_def schedule_until_def Let_def d'_def)
  show ?thesis
  proof (cases "id_t d = a")
    case True
    with Reused d' show ?thesis unfolding w by (auto simp: fired_ids_worker ord_def held_def)
  next
    case False
    with assms Reused have nb: "id_t d \<noteq> b" and p: "precedes a b (ids (timers s))"
      by (auto simp: ord_def held_def)
    from precedes_emplace_other[of d' a b "timers s" "k + period d"] False nb d' p
    have "precedes a b (ids (emplace (k + period d) d' (timers s)))" by simp
    with p nb d' Reused show ?thesis
      unfolding w by (auto simp: fired_ids_worker ord_def held_def)
  qed
next
  case (Calling t d)
  with assms show ?thesis
    by (auto simp: fired_ids_def worker_def ord_def held_def)
next
  case Exited
  with assms show ?thesis
    by (auto simp: fired_ids_def worker_def ord_def held_def)
qed

lemma ord_schedule:
  assumes "ord a b s" and "next_id s \<noteq> a" and "next_id s \<noteq> b"
  shows "ord a b (snd (schedule now delay cb rep s))"
  using assms precedes_emplace_other[of
        "\<lparr>id_t = next_id s, callback = cb, repeat = rep, period = delay\<rparr>" a b "timers s"
        "now + delay"]
  unfolding ord_def schedule_held by (auto simp: schedule_def Let_def)

lemma ord_reuse: "ord a b (reuse k s) = ord a b s"
  by (simp add: ord_def reuse_views reuse_fields)

lemma ord_step:
  assumes "ord a b s" and "a \<noteq> b" and "e \<noteq> Cancel a"
    and "sched_count [e] \<noteq> 0 \<Longrightarrow> next_id s \<noteq> a \<and> next_id s \<noteq> b"
  shows "b \<notin> set (fired_ids [fst (step e s)])
       \<and> (a \<in> set (fired_ids [fst (step e s)]) \<or> ord a b (snd (step e s)))"
proof (cases e)
  case (Schedule now delay cb rep)
  with assms(4) have ne: "next_id s \<noteq> a" "next_id s \<noteq> b" by simp_all
  from ord_schedule[OF assms(1) ne, of now delay cb rep]
  show ?thesis using Schedule by (simp add: fired_ids_nowork step_snd del: step.simps)
next
  case (ScheduleReusing now delay cb rep)
  with assms(4) have ne: "next_id s \<noteq> a" "next_id s \<noteq> b" by simp_all
  from ord_schedule[OF assms(1) ne, of now delay cb rep]
  show ?thesis
    using ScheduleReusing by (simp add: fired_ids_nowork step_snd ord_reuse del: step.simps)
next
  case (Cancel j)
  with assms(3) have ja: "j \<noteq> a" by simp
  have h: "held (snd (cancel j s)) = held s"
    by (simp add: cancel_def held_def split: option.splits)
  have "ord a b (snd (cancel j s))"
    using assms(1) precedes_remove1[OF ja, of b "ids (timers s)"]
    unfolding ord_def h by (auto simp: cancel_def erase_first_Some_ids split: option.splits)
  then show ?thesis using Cancel by (simp add: fired_ids_nowork step_snd del: step.simps)
next
  case (Work now)
  with ord_worker[OF assms(1,2), of now] show ?thesis by simp
next
  case Shutdown
  have "ord a b (shutdown s)" using assms(1) by (simp add: ord_def shutdown_def held_def)
  then show ?thesis using Shutdown by (simp add: fired_ids_nowork del: step.simps) simp
qed

lemma ord_run:
  "ord a b s \<Longrightarrow> a \<noteq> b \<Longrightarrow> idinv n s \<Longrightarrow> n + sched_count es < 2 ^ 64 \<Longrightarrow>
   unat a \<le> n \<Longrightarrow> unat b \<le> n \<Longrightarrow> Cancel a \<notin> set es \<Longrightarrow>
     precedes a b (fired_ids (fst (run es s)))"
proof (induction es arbitrary: n s)
  case Nil
  then show ?case by (simp add: fired_ids_def)
next
  case (Cons e es)
  have b: "n + sched_count [e] + sched_count es < 2 ^ 64"
    using Cons.prems(4) sched_count_Cons[of e es] by simp
  then have b1: "n + sched_count [e] < 2 ^ 64" by simp
  have inv': "idinv (n + sched_count [e]) (snd (step e s))"
    by (rule idinv_step[OF Cons.prems(3) b1])
  have fr: "next_id s \<noteq> a \<and> next_id s \<noteq> b" if "sched_count [e] \<noteq> 0"
    using that b1 next_id_fresh[OF Cons.prems(3,5)] next_id_fresh[OF Cons.prems(3,6)] by simp
  from Cons.prems(7) have ne: "e \<noteq> Cancel a" and ne': "Cancel a \<notin> set es" by auto
  from ord_step[OF Cons.prems(1,2) ne fr]
  have nb: "b \<notin> set (fired_ids [fst (step e s)])"
    and alt: "a \<in> set (fired_ids [fst (step e s)]) \<or> ord a b (snd (step e s))" by simp_all
  have eq: "fired_ids (fst (run (e # es) s))
      = fired_ids [fst (step e s)] @ fired_ids (fst (run es (snd (step e s))))"
    unfolding run_Cons_fst by (rule fired_ids_Cons)
  from alt show ?case
  proof
    assume "a \<in> set (fired_ids [fst (step e s)])"
    then show ?thesis unfolding eq precedes_append_absent[OF nb] by simp
  next
    assume o: "ord a b (snd (step e s))"
    have "unat a \<le> n + sched_count [e]" "unat b \<le> n + sched_count [e]"
      using Cons.prems(5,6) by simp_all
    from Cons.IH[OF o Cons.prems(2) inv' b this ne']
    show ?thesis unfolding eq precedes_append_absent[OF nb] by simp
  qed
qed

lemma pending_worker:
  assumes "pending_at a D s"
  shows "a \<in> set (fired_ids [fst (worker now s)]) \<or> pending_at a D (snd (worker now s))"
proof (cases "wpc s")
  case AtTop
  with assms have m: "(D, a) \<in> set (map (\<lambda>p. (fst p, id_t (snd p))) (timers s))"
    by (simp add: pending_at_def held_def)
  then have "pending_at a D (snd (worker now s))" using AtTop
    by (cases "timers s") (auto simp: worker_def pending_at_def held_def split: if_splits)
  then show ?thesis by simp
next
  case (Erased t d)
  with assms show ?thesis
    by (auto simp: worker_def pending_at_def held_def schedule_until_def Let_def set_emplace)
next
  case (Reused t k d)
  with assms show ?thesis
    by (auto simp: worker_def pending_at_def held_def schedule_until_def Let_def set_emplace)
next
  case (Calling t d)
  with assms show ?thesis
    by (auto simp: fired_ids_def worker_def pending_at_def held_def)
next
  case Exited
  with assms show ?thesis by (auto simp: fired_ids_def worker_def pending_at_def held_def)
qed

lemma pending_schedule:
  "pending_at a D s \<Longrightarrow> pending_at a D (snd (schedule now delay cb rep s))"
  by (auto simp: schedule_def Let_def pending_at_def held_def set_emplace)

lemma pending_reuse: "pending_at a D (reuse k s) = pending_at a D s"
  by (simp add: pending_at_def reuse_views reuse_fields)

lemma pending_step:
  assumes "pending_at a D s" and "e \<noteq> Cancel a"
  shows "a \<in> set (fired_ids [fst (step e s)]) \<or> pending_at a D (snd (step e s))"
proof (cases e)
  case (Schedule now delay cb rep)
  with pending_schedule[OF assms(1), of now delay cb rep] show ?thesis
    by (simp add: step_snd del: step.simps)
next
  case (ScheduleReusing now delay cb rep)
  with pending_schedule[OF assms(1), of now delay cb rep] show ?thesis
    by (simp add: step_snd pending_reuse del: step.simps)
next
  case (Cancel j)
  with assms(2) have ja: "j \<noteq> a" by simp
  show ?thesis
  proof (cases "erase_first j (timers s)")
    case None
    with assms(1) Cancel show ?thesis by (simp add: cancel_def)
  next
    case (Some ys)
    have "pending_at a D (s\<lparr>timers := ys\<rparr>)"
      using assms(1) erase_first_keeps[OF Some] ja
      by (auto simp: pending_at_def held_def)
    with Some Cancel show ?thesis by (simp add: cancel_def)
  qed
next
  case (Work now)
  with pending_worker[OF assms(1), of now] show ?thesis by simp
next
  case Shutdown
  with assms(1) show ?thesis by (simp add: shutdown_def pending_at_def held_def)
qed

lemma pending_run:
  "pending_at a D s \<Longrightarrow> Cancel a \<notin> set es \<Longrightarrow>
     a \<in> set (fired_ids (fst (run es s))) \<or> pending_at a D (snd (run es s))"
proof (induction es arbitrary: s)
  case Nil
  then show ?case by simp
next
  case (Cons e es)
  from Cons.prems(2) have ne: "e \<noteq> Cancel a" and ne': "Cancel a \<notin> set es" by auto
  have eq: "fired_ids (fst (run (e # es) s))
      = fired_ids [fst (step e s)] @ fired_ids (fst (run es (snd (step e s))))"
    unfolding run_Cons_fst by (rule fired_ids_Cons)
  from pending_step[OF Cons.prems(1) ne] show ?case
  proof
    assume "a \<in> set (fired_ids [fst (step e s)])"
    then show ?thesis unfolding eq by simp
  next
    assume "pending_at a D (snd (step e s))"
    from Cons.IH[OF this ne'] show ?thesis unfolding eq run_Cons_snd by auto
  qed
qed

lemma schedule_fresh_inv:
  assumes "idinv n s" and "Suc n < 2 ^ 64" and "schedule now delay cb rep s = (i, s1)"
  shows "idinv (Suc n) s1" and "unat i = Suc n"
    and "i \<notin> set (ids (timers s))" and "i \<notin> set (held s)"
    and "timers s1 = emplace (now + delay)
           \<lparr>id_t = i, callback = cb, repeat = rep, period = delay\<rparr> (timers s)"
    and "held s1 = held s"
proof -
  from idinv_schedule[OF assms(1,2), of now delay cb rep] assms(3)
  show "idinv (Suc n) s1" and i: "unat i = Suc n"
    using unat_id_Suc[OF assms(2)] by simp_all
  show "i \<notin> set (ids (timers s))"
  proof
    assume "i \<in> set (ids (timers s))"
    then have "i \<in> set (live s)" by (simp add: live_def)
    with assms(1) have "unat i \<le> n" by (auto simp: idinv_def)
    with i show False by simp
  qed
  show "i \<notin> set (held s)"
  proof
    assume "i \<in> set (held s)"
    with assms(1) have "unat i \<le> n" by (auto simp: idinv_def)
    with i show False by simp
  qed
  show "timers s1 = emplace (now + delay)
           \<lparr>id_t = i, callback = cb, repeat = rep, period = delay\<rparr> (timers s)"
    and "held s1 = held s"
    using assms(3) by (auto simp: schedule_def Let_def held_def)
qed

subsection \<open>Progress of the worker\<close>















subsection \<open>Deadlines stay representable\<close>

text \<open>The model adds time points and durations as integers, the code as signed 64-bit
  tick counts. While the worker alone runs, every deadline it computes lies between the
  smallest key of the store and the largest last deadline of an entry, so that the
  sums of the code do not overflow when these bounds are representable.\<close>

lemma within_reinsert:
  fixes t :: int
  assumes "lo \<le> t" and "0 \<le> r" and "0 \<le> p" and "t + r * p \<le> hi" and "r \<noteq> 0"
  shows "lo \<le> t + p" and "t + p + (r - 1) * p \<le> hi"
proof -
  from assms(1,3) show "lo \<le> t + p" by simp
  have "t + p + (r - 1) * p = t + r * p" by (simp add: algebra_simps)
  with assms(4) show "t + p + (r - 1) * p \<le> hi" by simp
qed

lemma within_worker: "within lo hi s \<Longrightarrow> within lo hi (snd (worker now s))"
proof (cases "wpc s")
  case AtTop
  assume "within lo hi s"
  with AtTop show ?thesis
    by (auto simp: within_def worker_def split: list.splits)
next
  case (Erased t d)
  assume w: "within lo hi s"
  with Erased have h: "lo \<le> t" "0 \<le> repeat d" "0 \<le> period d" "t + repeat d * period d \<le> hi"
    by (simp_all add: within_def)
  show ?thesis
  proof (cases "repeat d = 0")
    case True
    with w Erased show ?thesis by (simp add: within_def worker_def)
  next
    case False
    note within_reinsert[OF h False]
    with w Erased False h show ?thesis
      by (auto simp: within_def worker_def schedule_until_def Let_def set_emplace)
  qed
next
  case (Reused t k d)
  assume w: "within lo hi s"
  with Reused have h: "lo \<le> k" "0 \<le> repeat d" "0 \<le> period d" "k + repeat d * period d \<le> hi"
    by (simp_all add: within_def)
  show ?thesis
  proof (cases "repeat d = 0")
    case True
    with w Reused show ?thesis by (simp add: within_def worker_def)
  next
    case False
    note within_reinsert[OF h False]
    with w Reused False h show ?thesis
      by (auto simp: within_def worker_def schedule_until_def Let_def set_emplace)
  qed
next
  case (Calling t d)
  assume "within lo hi s"
  with Calling show ?thesis by (simp add: within_def worker_def)
next
  case Exited
  assume "within lo hi s"
  with Exited show ?thesis by (simp add: within_def worker_def)
qed

lemma within_run: "within lo hi s \<Longrightarrow> within lo hi (snd (run (map Work ts) s))"
  by (induction ts arbitrary: s)
     (simp_all add: run_Cons_snd step_snd within_worker del: run.simps(2) step.simps)

lemma within_keys:
  assumes "within lo hi s" and "p \<in> set (timers s)"
  shows "lo \<le> fst p" and "fst p \<le> hi"
proof -
  from assms have h: "lo \<le> fst p" "0 \<le> repeat (snd p)" "0 \<le> period (snd p)"
    "fst p + repeat (snd p) * period (snd p) \<le> hi" by (auto simp: within_def)
  show "lo \<le> fst p" by (rule h(1))
  from h(2,3) have "0 \<le> repeat (snd p) * period (snd p)" by simp
  with h(4) show "fst p \<le> hi" by linarith
qed

lemma drain_keys_representable:
  assumes "wpc s = AtTop"
    and "\<forall>p\<in>set (timers s). - (2 ^ 63) \<le> fst p \<and> 0 \<le> repeat (snd p) \<and> 0 \<le> period (snd p)
           \<and> fst p + repeat (snd p) * period (snd p) < 2 ^ 63"
    and "p \<in> set (timers (snd (run (map Work ts) s)))"
  shows "- (2 ^ 63) \<le> fst p \<and> fst p < 2 ^ 63"
proof -
  have "within (- (2 ^ 63)) (2 ^ 63 - 1) s"
    using assms(1,2) by (auto simp: within_def)
  from within_keys[OF within_run[OF this] assms(3)] show ?thesis by simp
qed

section \<open>The claims\<close>

subsection \<open>C1: a timer with a positive repeat count\<close>



subsection \<open>C2: reinsertion at the old deadline plus the period\<close>

text \<open>
  Claim C2 says that a fired entry with repetitions left is reinserted under its old
  deadline plus its period. The code computes the new key as \<^verbatim>\<open>it->first + data.period\<close>
  after \<^verbatim>\<open>timers_.erase(it)\<close> and after \<^verbatim>\<open>lock.unlock()\<close>: it means the old deadline and
  reads a freed node. Below, timer A has deadline 5 and period 5. The worker erases its
  pair at clock reading 7 and releases the lock; a \<^verbatim>\<open>schedule\<close> call for B with deadline
  \<open>8 + 1 = 9\<close> runs before the worker goes on, and its \<^verbatim>\<open>emplace\<close> is given the freed
  node. The worker then reinserts A under \<open>9 + 5 = 14\<close>, where the claim has
  \<open>5 + 5 = 10\<close>. When the same call gets a node of its own, the key is 10.
\<close>

theorem reinsertion_key_read_after_erase:
  "timers (snd (run [Schedule 0 5 ''A'' 2, Work 7, ScheduleReusing 8 1 ''B'' 0, Work 8] init))
     = [(9, \<lparr>id_t = 2, callback = ''B'', repeat = 0, period = 1\<rparr>),
        (14, \<lparr>id_t = 1, callback = ''A'', repeat = 1, period = 5\<rparr>)]
   \<and> wpc (snd (run [Schedule 0 5 ''A'' 2, Work 7] init))
       = Erased 5 \<lparr>id_t = 1, callback = ''A'', repeat = 2, period = 5\<rparr>
   \<and> wpc (snd (run [Schedule 0 5 ''A'' 2, Work 7, ScheduleReusing 8 1 ''B'' 0] init))
       = Reused 5 9 \<lparr>id_t = 1, callback = ''A'', repeat = 2, period = 5\<rparr>
   \<and> timers (snd (run [Schedule 0 5 ''A'' 2, Work 7, Schedule 8 1 ''B'' 0, Work 8] init))
     = [(9, \<lparr>id_t = 2, callback = ''B'', repeat = 0, period = 1\<rparr>),
        (10, \<lparr>id_t = 1, callback = ''A'', repeat = 1, period = 5\<rparr>)]"
  by (simp add: schedule_def init_def worker_def schedule_until_def reuse_def Let_def)

subsection \<open>C3: the store while a callback runs\<close>




subsection \<open>C4: cancel\<close>

text \<open>
  Claim C4. In every state reachable from construction, \<^verbatim>\<open>cancel(id)\<close> returns true
  if and only if an entry with that id is in the store; it then removes exactly that
  entry and leaves the others in place. When it returns false the state is unchanged. A
  second \<^verbatim>\<open>cancel\<close> right after returns false, and along any sequence of calls and
  worker steps at most one \<^verbatim>\<open>cancel\<close> of a given id returns true (\<open>cancel_hits\<close> counts
  them). An id whose entry the worker has erased and not reinserted is not in the store:
  this is the case "already fired".
\<close>

theorem cancel_true_iff_pending_at_most_once:
  assumes "sched_count es < 2 ^ 64" and "s = snd (run es init)"
  shows "(fst (cancel i s) \<longleftrightarrow> i \<in> set (ids (timers s)))
       \<and> (fst (cancel i s) \<longrightarrow>
            timers (snd (cancel i s)) = filter (\<lambda>p. id_t (snd p) \<noteq> i) (timers s))
       \<and> (\<not> fst (cancel i s) \<longrightarrow> snd (cancel i s) = s)
       \<and> \<not> fst (cancel i (snd (cancel i s)))
       \<and> cancel_hits i es init \<le> 1"
proof -
  have b: "0 + sched_count es < 2 ^ 64" using assms(1) by simp
  from idinv_run[OF idinv_init b] assms(2) have inv: "idinv (sched_count es) s" by simp
  then have dis: "distinct (ids (timers s))" by (simp add: idinv_def live_def)
  have 1: "fst (cancel i s) \<longleftrightarrow> i \<in> set (ids (timers s))"
    using erase_first_None[of i "timers s"] by (auto simp: cancel_def split: option.splits)
  have 2: "fst (cancel i s) \<longrightarrow>
            timers (snd (cancel i s)) = filter (\<lambda>p. id_t (snd p) \<noteq> i) (timers s)"
    using erase_first_filter[OF _ dis, of i] by (auto simp: cancel_def split: option.splits)
  have 3: "\<not> fst (cancel i s) \<longrightarrow> snd (cancel i s) = s"
    by (auto simp: cancel_def split: option.splits)
  have 4: "\<not> fst (cancel i (snd (cancel i s)))"
  proof (cases "fst (cancel i s)")
    case True
    from cancel_hit_dead(1)[OF inv True] have "i \<notin> set (ids (timers (snd (cancel i s))))"
      by (simp add: live_def)
    then show ?thesis
      using erase_first_None[of i "timers (snd (cancel i s))"]
      by (auto simp: cancel_def[of i "snd (cancel i s)"] split: option.splits)
  next
    case False
    with 3 show ?thesis by simp
  qed
  have 5: "cancel_hits i es (init :: 'a TimerService) \<le> 1"
    by (rule cancel_hits_le_1[OF idinv_init b])
  from 1 2 3 4 5 show ?thesis by blast
qed

theorem cancel_true_iff_pending_at_most_once_witness:
  "sched_count [Schedule 0 5 ''A'' 0, Cancel 1, Cancel 1, Schedule 1 5 ''B'' 0] < 2 ^ 64
   \<and> fst (cancel 2 (snd (run [Schedule 0 5 ''A'' 0, Cancel 1, Cancel 1, Schedule 1 5 ''B'' 0] init)))
   \<and> timers (snd (cancel 2 (snd (run [Schedule 0 5 ''A'' 0, Cancel 1, Cancel 1,
        Schedule 1 5 ''B'' 0] init)))) = []
   \<and> cancel_hits 1 [Schedule 0 5 ''A'' 0, Cancel 1, Cancel 1, Schedule 1 5 ''B'' 0] init \<le> 1"
  using cancel_true_iff_pending_at_most_once[
      of "[Schedule 0 5 ''A'' 0, Cancel 1, Cancel 1, Schedule 1 5 ''B'' 0]"
         "snd (run [Schedule 0 5 ''A'' 0, Cancel 1, Cancel 1, Schedule 1 5 ''B'' 0] init)" 1]
    cancel_true_iff_pending_at_most_once[
      of "[Schedule 0 5 ''A'' 0, Cancel 1, Cancel 1, Schedule 1 5 ''B'' 0]"
         "snd (run [Schedule 0 5 ''A'' 0, Cancel 1, Cancel 1, Schedule 1 5 ''B'' 0] init)" 2]
  by (simp add: init_def schedule_def cancel_def ids_def)

subsection \<open>C5: deadline order\<close>

text \<open>
  Claim C5. The worker always fires the entry with the smallest deadline in the store:
  in every reachable state, the pair it erases at the top of its loop is due and no pair
  in the store has a smaller key. Moreover, when delays are non-negative and the clock
  readings are non-decreasing in the order in which the critical sections run, the
  deadlines of the callbacks run form a non-decreasing sequence.
\<close>

theorem fires_smallest_deadline_first:
  assumes "s = snd (run es init)"
  shows "(wpc s = AtTop \<and> wpc (snd (worker now s)) = Erased t d \<longrightarrow>
            (t, d) \<in> set (timers s) \<and> t \<le> now \<and> (\<forall>p\<in>set (timers s). t \<le> fst p))
       \<and> (nonneg_delays es \<and> sorted (clocks es) \<longrightarrow>
            sorted (map fst (fired (fst (run es init)))))"
proof -
  have "sorted (map fst (timers (init :: 'a TimerService)))" by (simp add: init_def)
  from sorted_run[OF this, of es] assms have srt: "sorted (map fst (timers s))" by simp
  have loc: "wpc s = AtTop \<and> wpc (snd (worker now s)) = Erased t d \<longrightarrow>
            (t, d) \<in> set (timers s) \<and> t \<le> now \<and> (\<forall>p\<in>set (timers s). t \<le> fst p)"
  proof
    assume a: "wpc s = AtTop \<and> wpc (snd (worker now s)) = Erased t d"
    then obtain rest where ts: "timers s = (t, d) # rest" and due: "t \<le> now"
      by (cases "timers s") (auto simp: worker_def split: if_splits)
    from srt ts have "\<forall>p\<in>set (timers s). t \<le> fst p" by auto
    with ts due show "(t, d) \<in> set (timers s) \<and> t \<le> now \<and> (\<forall>p\<in>set (timers s). t \<le> fst p)"
      by simp
  qed
  have glob: "nonneg_delays es \<and> sorted (clocks es) \<longrightarrow>
            sorted (map fst (fired (fst (run es (init :: 'a TimerService)))))"
  proof
    assume a: "nonneg_delays es \<and> sorted (clocks es)"
    define L where "L = (case clocks es of [] \<Rightarrow> 0 | c # cs \<Rightarrow> c)"
    have g: "ginv L (init :: 'a TimerService)" by (simp add: ginv_def init_def)
    have lb: "\<forall>c\<in>set (clocks es). L \<le> c"
      using a by (cases "clocks es") (auto simp: L_def)
    from ginv_run[OF g _ _ lb] a
    show "sorted (map fst (fired (fst (run es (init :: 'a TimerService)))))" by simp
  qed
  from loc glob show ?thesis by blast
qed

theorem fires_smallest_deadline_first_witness:
  "wpc (snd (run [Schedule 0 5 ''A'' 0, Schedule 1 2 ''B'' 0] init)) = AtTop
   \<and> wpc (snd (worker 10 (snd (run [Schedule 0 5 ''A'' 0, Schedule 1 2 ''B'' 0] init))))
        = Erased 3 \<lparr>id_t = 2, callback = ''B'', repeat = 0, period = 2\<rparr>
   \<and> timers (snd (run [Schedule 0 5 ''A'' 0, Schedule 1 2 ''B'' 0] init))
        = [(3, \<lparr>id_t = 2, callback = ''B'', repeat = 0, period = 2\<rparr>),
           (5, \<lparr>id_t = 1, callback = ''A'', repeat = 0, period = 5\<rparr>)]
   \<and> nonneg_delays [Schedule 0 5 ''A'' 0, Schedule 1 2 ''B'' 0, Work 10, Work 10, Work 10,
         Work 11, Work 11, Work 11]
   \<and> sorted (clocks [Schedule 0 5 ''A'' 0, Schedule 1 2 ''B'' 0, Work 10, Work 10, Work 10,
         Work 11, Work 11, Work 11])
   \<and> map fst (fired (fst (run [Schedule 0 5 ''A'' 0, Schedule 1 2 ''B'' 0, Work 10, Work 10,
         Work 10, Work 11, Work 11, Work 11] init))) = [3, 5]
   \<and> sorted (map fst (fired (fst (run [Schedule 0 5 ''A'' 0, Schedule 1 2 ''B'' 0, Work 10,
         Work 10, Work 10, Work 11, Work 11, Work 11] init))))"
  using fires_smallest_deadline_first[of
      "snd (run [Schedule 0 5 ''A'' 0, Schedule 1 2 ''B'' 0] init)"
      "[Schedule 0 5 ''A'' 0, Schedule 1 2 ''B'' 0]" 10 3
      "\<lparr>id_t = 2, callback = ''B'', repeat = 0, period = 2\<rparr>"]
    fires_smallest_deadline_first[OF refl, of
      "[Schedule 0 5 ''A'' 0, Schedule 1 2 ''B'' 0, Work 10, Work 10, Work 10,
         Work 11, Work 11, Work 11]" 0 0
      "\<lparr>id_t = 1, callback = ''A'', repeat = 0, period = 5\<rparr>"]
  by (simp add: schedule_def init_def worker_def)

subsection \<open>C6: equal deadlines\<close>

text \<open>
  Claim C6. Two timers A then B scheduled with equal deadlines fire in insertion order.
  \<open>precedes a b xs\<close> says that \<open>b\<close> does not occur in \<open>xs\<close> before the first \<open>a\<close>.
  Whatever happens before A is scheduled (\<open>es0\<close>), between the two calls (\<open>es1\<close>) and
  afterwards (\<open>es2\<close>), as long as A is not cancelled, no callback of B runs before a
  callback of A has run.
\<close>

theorem equal_deadlines_fire_in_insertion_order:
  assumes "Suc (Suc (sched_count es0 + sched_count es1)) + sched_count es2 < 2 ^ 64"
    and "s = snd (run es0 init)"
    and "schedule nowA delayA cbA repA s = (a, s1)"
    and "run es1 s1 = (obs1, s2)"
    and "schedule nowB delayB cbB repB s2 = (b, s3)"
    and "run es2 s3 = (obs2, s4)"
    and "nowA + delayA = nowB + delayB"
    and "Cancel a \<notin> set (es1 @ es2)"
  shows "a \<noteq> b \<and> precedes a b (fired_ids (obs1 @ obs2))"
proof -
  let ?n0 = "sched_count es0"
  let ?n1 = "Suc ?n0 + sched_count es1"
  let ?D = "nowA + delayA"
  have b0: "0 + ?n0 < 2 ^ 64" and bA: "Suc ?n0 < 2 ^ 64" and b1: "Suc ?n0 + sched_count es1 < 2 ^ 64"
    and bB: "Suc ?n1 < 2 ^ 64" and b2: "Suc ?n1 + sched_count es2 < 2 ^ 64"
    using assms(1) by simp_all
  from idinv_run[OF idinv_init b0] assms(2) have inv0: "idinv ?n0 s" by simp
  have "sorted (map fst (timers (init :: 'a TimerService)))" by (simp add: init_def)
  from sorted_run[OF this, of es0] assms(2) have srt0: "sorted (map fst (timers s))" by simp
  note frA = schedule_fresh_inv[OF inv0 bA assms(3)]
  have srt1: "sorted (map fst (timers s1))" unfolding frA(5) by (rule sorted_emplace[OF srt0])
  have pA: "pending_at a ?D s1" unfolding pending_at_def frA(5) by (simp add: set_emplace)
  have s2: "s2 = snd (run es1 s1)" and o1: "obs1 = fst (run es1 s1)" using assms(4) by simp_all
  have inv2: "idinv ?n1 s2" unfolding s2 by (rule idinv_run[OF frA(1) b1])
  have srt2: "sorted (map fst (timers s2))" unfolding s2 by (rule sorted_run[OF srt1])
  note frB = schedule_fresh_inv[OF inv2 bB assms(5)]
  have ab: "a \<noteq> b" using frA(2) frB(2) by auto
  have lea: "unat a \<le> Suc ?n1" and leb: "unat b \<le> Suc ?n1" using frA(2) frB(2) by simp_all
  from fired_bounded_run[OF frA(1) b1] frB(2) o1
  have nb1: "b \<notin> set (fired_ids obs1)" by fastforce
  from assms(8) have c1: "Cancel a \<notin> set es1" and c2: "Cancel a \<notin> set es2" by simp_all
  have s4: "obs2 = fst (run es2 s3)" using assms(6) by simp
  have split: "precedes a b (fired_ids (obs1 @ obs2))
      \<longleftrightarrow> a \<in> set (fired_ids obs1) \<or> precedes a b (fired_ids obs2)"
    unfolding fired_ids_append by (rule precedes_append_absent[OF nb1])
  from pending_run[OF pA c1] s2 o1
  have "a \<in> set (fired_ids obs1) \<or> pending_at a ?D s2" by simp
  then have "precedes a b (fired_ids (obs1 @ obs2))"
  proof
    assume "a \<in> set (fired_ids obs1)"
    then show ?thesis unfolding split by simp
  next
    assume p2: "pending_at a ?D s2"
    have "ord a b s3"
    proof (cases "a \<in> set (held s2)")
      case True
      then show ?thesis by (simp add: ord_def frB(6))
    next
      case False
      with p2 have m: "(?D, a) \<in> set (map (\<lambda>p. (fst p, id_t (snd p))) (timers s2))"
        by (simp add: pending_at_def)
      have "precedes a b (ids (timers s3))"
        unfolding frB(5) assms(7)[symmetric]
        by (rule precedes_emplace_tie[OF srt2 m frB(3) _ ab]) simp
      with frB(4) show ?thesis by (simp add: ord_def frB(6))
    qed
    from ord_run[OF this ab frB(1) b2 lea leb c2] s4
    show ?thesis unfolding split by simp
  qed
  with ab show ?thesis by simp
qed

theorem equal_deadlines_fire_in_insertion_order_witness:
  "Suc (Suc (sched_count ([] :: string event list) + sched_count ([] :: string event list)))
      + sched_count [Work 9, Work 9, Work 9, Work 9, Work 9, Work 9 :: string event] < 2 ^ 64
   \<and> schedule 0 5 ''A'' 0 (snd (run [] init))
       = (1, \<lparr>timers = [(5, \<lparr>id_t = 1, callback = ''A'', repeat = 0, period = 5\<rparr>)],
              running = True, next_id = 2, wpc = AtTop\<rparr>)
   \<and> schedule 2 3 ''B'' 0
        \<lparr>timers = [(5, \<lparr>id_t = 1, callback = ''A'', repeat = 0, period = 5\<rparr>)],
         running = True, next_id = 2, wpc = AtTop\<rparr>
       = (2, \<lparr>timers = [(5, \<lparr>id_t = 1, callback = ''A'', repeat = 0, period = 5\<rparr>),
                         (5, \<lparr>id_t = 2, callback = ''B'', repeat = 0, period = 3\<rparr>)],
              running = True, next_id = 3, wpc = AtTop\<rparr>)
   \<and> (0::int) + 5 = 2 + 3
   \<and> fired_ids (fst (run [Work 9, Work 9, Work 9, Work 9, Work 9, Work 9]
        \<lparr>timers = [(5, \<lparr>id_t = 1, callback = ''A'', repeat = 0, period = 5\<rparr>),
                   (5, \<lparr>id_t = 2, callback = ''B'', repeat = 0, period = 3\<rparr>)],
         running = True, next_id = 3, wpc = AtTop\<rparr>)) = [1, 2]
   \<and> precedes 1 2 (fired_ids ([] @ fst (run [Work 9, Work 9, Work 9, Work 9, Work 9, Work 9]
        \<lparr>timers = [(5, \<lparr>id_t = 1, callback = ''A'', repeat = 0, period = 5\<rparr>),
                   (5, \<lparr>id_t = 2, callback = ''B'', repeat = 0, period = 3\<rparr>)],
         running = True, next_id = 3, wpc = AtTop\<rparr>)))"
proof -
  let ?s1 = "\<lparr>timers = [(5, \<lparr>id_t = 1, callback = ''A'', repeat = 0, period = 5\<rparr>)],
              running = True, next_id = 2, wpc = AtTop\<rparr> :: string TimerService"
  let ?s3 = "\<lparr>timers = [(5, \<lparr>id_t = 1, callback = ''A'', repeat = 0, period = 5\<rparr>),
                         (5, \<lparr>id_t = 2, callback = ''B'', repeat = 0, period = 3\<rparr>)],
              running = True, next_id = 3, wpc = AtTop\<rparr> :: string TimerService"
  let ?es2 = "[Work 9, Work 9, Work 9, Work 9, Work 9, Work 9] :: string event list"
  have bud: "Suc (Suc (sched_count ([] :: string event list)
      + sched_count ([] :: string event list))) + sched_count ?es2 < 2 ^ 64" by simp
  have eA: "schedule 0 5 ''A'' 0 (snd (run [] init)) = (1, ?s1)"
    by (simp add: schedule_def init_def)
  have r1: "run [] ?s1 = ([], ?s1)" by simp
  have eB: "schedule 2 3 ''B'' 0 ?s1 = (2, ?s3)" by (simp add: schedule_def)
  have r2: "run ?es2 ?s3 = (fst (run ?es2 ?s3), snd (run ?es2 ?s3))" by simp
  have tie: "(0::int) + 5 = 2 + 3" by simp
  have nc: "Cancel 1 \<notin> set ([] @ ?es2)" by simp
  have f: "fired_ids (fst (run ?es2 ?s3)) = [1, 2]"
    by (simp add: worker_def fired_ids_def)
  from equal_deadlines_fire_in_insertion_order[OF bud refl eA r1 eB r2 tie nc]
  have "precedes 1 2 (fired_ids ([] @ fst (run ?es2 ?s3)))" by blast
  with bud eA eB tie f show ?thesis by blast
qed

subsection \<open>C7: schedule after shutdown\<close>

text \<open>
  As written, claim C7 says that a \<^verbatim>\<open>schedule\<close> call after shutdown inserts nothing.
  \<^verbatim>\<open>schedule\<close> does not read \<^verbatim>\<open>running_\<close>: after the destructor has cleared the flag the
  call returns id 1 and the entry is in the store.
\<close>

theorem schedule_after_shutdown_counterexample:
  "\<not> running (shutdown (init :: string TimerService))
   \<and> timers (shutdown (init :: string TimerService)) = []
   \<and> schedule 0 5 ''A'' 0 (shutdown init)
       = (1, \<lparr>timers = [(5, \<lparr>id_t = 1, callback = ''A'', repeat = 0, period = 5\<rparr>)],
              running = False, next_id = 2, wpc = AtTop\<rparr>)"
  by (simp add: schedule_def shutdown_def init_def)

text \<open>
  Claim C7, amended. A \<^verbatim>\<open>schedule\<close> call made after shutdown has begun is accepted like
  any other: it returns the next id and inserts the entry. The entry never fires: no
  callback with its id runs in any continuation, and the only callback that can still
  run at all is the one of a firing that was in progress when the flag was cleared.
\<close>

theorem schedule_after_shutdown_accepted_never_fired:
  assumes "Suc (sched_count es0) < 2 ^ 64" and "s = snd (run es0 init)" and "\<not> running s"
    and "schedule now delay cb rep s = (i, s')"
  shows "i = next_id s
       \<and> timers s' = emplace (now + delay)
            \<lparr>id_t = i, callback = cb, repeat = rep, period = delay\<rparr> (timers s)
       \<and> i \<in> set (ids (timers s'))
       \<and> (\<forall>x\<in>set (fired (fst (run es s'))). id_t (snd x) \<noteq> i)
       \<and> length (fired (fst (run es s'))) \<le> in_flight s"
proof -
  have b: "0 + sched_count es0 < 2 ^ 64" using assms(1) by simp
  from idinv_run[OF idinv_init b] assms(2) have inv: "idinv (sched_count es0) s" by simp
  have i: "i = next_id s" and t: "timers s' = emplace (now + delay)
            \<lparr>id_t = i, callback = cb, repeat = rep, period = delay\<rparr> (timers s)"
    and w: "wpc s' = wpc s" and r: "\<not> running s'"
    using assms(3,4) by (auto simp: schedule_def Let_def)
  from t have m: "i \<in> set (ids (timers s'))" by (simp add: ids_emplace_set)
  have u: "unat i = Suc (sched_count es0)"
    using inv i unat_id_Suc[OF assms(1)] by (simp add: idinv_def)
  have "i \<notin> set (held s)"
  proof
    assume "i \<in> set (held s)"
    with inv have "unat i \<le> sched_count es0" by (auto simp: idinv_def)
    with u show False by simp
  qed
  moreover have "held s' = held s" using w by (simp add: held_def)
  ultimately have "i \<notin> set (held s')" by simp
  with run_stopped_held[OF r, of es]
  have f: "\<forall>x\<in>set (fired (fst (run es s'))). id_t (snd x) \<noteq> i" by metis
  have "in_flight s' = in_flight s" using w by (simp add: in_flight_def)
  with run_stopped_fired[OF r, of es]
  have l: "length (fired (fst (run es s'))) \<le> in_flight s" by simp
  from i t m f l show ?thesis by blast
qed

theorem schedule_after_shutdown_accepted_never_fired_witness:
  "Suc (sched_count [Schedule 0 3 ''A'' 0, Shutdown]) < 2 ^ 64
   \<and> \<not> running (snd (run [Schedule 0 3 ''A'' 0, Shutdown] init))
   \<and> schedule 1 5 ''B'' 0 (snd (run [Schedule 0 3 ''A'' 0, Shutdown] init))
       = (2, \<lparr>timers = [(3, \<lparr>id_t = 1, callback = ''A'', repeat = 0, period = 3\<rparr>),
                         (6, \<lparr>id_t = 2, callback = ''B'', repeat = 0, period = 5\<rparr>)],
              running = False, next_id = 3, wpc = AtTop\<rparr>)
   \<and> fired (fst (run [Work 10, Work 11, Work 12]
        \<lparr>timers = [(3, \<lparr>id_t = 1, callback = ''A'', repeat = 0, period = 3\<rparr>),
                   (6, \<lparr>id_t = 2, callback = ''B'', repeat = 0, period = 5\<rparr>)],
         running = False, next_id = 3, wpc = AtTop\<rparr>)) = []"
proof -
  have e: "schedule 1 5 ''B'' 0 (snd (run [Schedule 0 3 ''A'' 0, Shutdown] init))
       = (2, \<lparr>timers = [(3, \<lparr>id_t = 1, callback = ''A'', repeat = 0, period = 3\<rparr>),
                         (6, \<lparr>id_t = 2, callback = ''B'', repeat = 0, period = 5\<rparr>)],
              running = False, next_id = 3, wpc = AtTop\<rparr>)"
    by (simp add: schedule_def shutdown_def init_def)
  have r: "\<not> running (snd (run [Schedule 0 3 ''A'' 0, Shutdown] (init :: string TimerService)))"
    by (simp add: schedule_def shutdown_def init_def)
  have c: "Suc (sched_count [Schedule 0 3 ''A'' 0, Shutdown]) < 2 ^ 64" by simp
  have f: "in_flight (snd (run [Schedule 0 3 ''A'' 0, Shutdown] (init :: string TimerService))) = 0"
    by (simp add: schedule_def shutdown_def init_def in_flight_def)
  from schedule_after_shutdown_accepted_never_fired[OF c refl r e, of "[Work 10, Work 11, Work 12]"]
  have "length (fired (fst (run [Work 10, Work 11, Work 12]
        \<lparr>timers = [(3, \<lparr>id_t = 1, callback = ''A'', repeat = 0, period = 3\<rparr>),
                   (6, \<lparr>id_t = 2, callback = ''B'', repeat = 0, period = 5\<rparr>)],
         running = False, next_id = 3, wpc = AtTop\<rparr>)))
      \<le> in_flight (snd (run [Schedule 0 3 ''A'' 0, Shutdown] (init :: string TimerService)))"
    by blast
  with f have "fired (fst (run [Work 10, Work 11, Work 12]
        \<lparr>timers = [(3, \<lparr>id_t = 1, callback = ''A'', repeat = 0, period = 3\<rparr>),
                   (6, \<lparr>id_t = 2, callback = ''B'', repeat = 0, period = 5\<rparr>)],
         running = False, next_id = 3, wpc = AtTop\<rparr>)) = []"
    by (simp del: run.simps)
  with c r e show ?thesis by blast
qed

subsection \<open>C8: pending entries at shutdown\<close>

text \<open>
  As written, claim C8 says that every \<^verbatim>\<open>cancel\<close> after shutdown returns false.
  \<^verbatim>\<open>cancel\<close> does not read \<^verbatim>\<open>running_\<close> and the destructor leaves the store as it is
  until the worker has been joined: the pending entry is found and erased.
\<close>

theorem cancel_after_shutdown_counterexample:
  "\<not> running (shutdown (snd (schedule 0 5 ''A'' 0 init)))
   \<and> cancel 1 (shutdown (snd (schedule 0 5 ''A'' 0 init)))
       = (True, \<lparr>timers = [], running = False, next_id = 2, wpc = AtTop\<rparr>)"
  by (simp add: schedule_def shutdown_def init_def cancel_def)

text \<open>
  Claim C8, amended. Once \<^verbatim>\<open>running_\<close> is false the worker takes no further entry from
  the store: in any continuation at most the callback of a firing already in progress
  runs, and none when the worker is at the top of its loop or has exited. \<^verbatim>\<open>cancel\<close>
  after shutdown returns true if and only if the id is in the store.
\<close>

theorem no_entry_taken_after_shutdown:
  assumes "\<not> running s"
  shows "length (fired (fst (run es s))) \<le> in_flight s
       \<and> (wpc s = AtTop \<or> wpc s = Exited \<longrightarrow> fired (fst (run es s)) = [])
       \<and> (fst (cancel i s) \<longleftrightarrow> i \<in> set (ids (timers s)))"
proof -
  have 1: "length (fired (fst (run es s))) \<le> in_flight s"
    by (rule run_stopped_fired[OF assms])
  then have 2: "wpc s = AtTop \<or> wpc s = Exited \<longrightarrow> fired (fst (run es s)) = []"
    by (auto simp: in_flight_def)
  have 3: "fst (cancel i s) \<longleftrightarrow> i \<in> set (ids (timers s))"
    using erase_first_None[of i "timers s"] by (auto simp: cancel_def split: option.splits)
  from 1 2 3 show ?thesis by blast
qed

theorem no_entry_taken_after_shutdown_witness:
  "\<not> running (shutdown (snd (schedule 0 5 ''A'' 0 init)))
   \<and> fired (fst (run [Work 10, Work 11, Work 12] (shutdown (snd (schedule 0 5 ''A'' 0 init))))) = []
   \<and> fst (cancel 1 (shutdown (snd (schedule 0 5 ''A'' 0 init))))"
  using no_entry_taken_after_shutdown[of "shutdown (snd (schedule 0 5 ''A'' 0 init))"
      "[Work 10, Work 11, Work 12]" 1]
  by (simp add: schedule_def shutdown_def init_def ids_def)

subsection \<open>C9: timer ids\<close>

text \<open>
  Claim C9. Ids are assigned from 1 upwards: along any sequence of calls and worker steps
  from construction, the k-th \<^verbatim>\<open>schedule\<close> call returns k, the ids returned are pairwise
  distinct, and the ids of the entries in the store are pairwise distinct. The counter is
  a \<^verbatim>\<open>uint64_t\<close>, so this is stated for fewer than \<open>2\<^sup>6\<^sup>4\<close> calls.
\<close>

theorem ids_count_up_from_1:
  assumes "sched_count es < 2 ^ 64"
  shows "map unat (returned (fst (run es init))) = [1..<Suc (sched_count es)]
       \<and> distinct (returned (fst (run es init)))
       \<and> distinct (ids (timers (snd (run es init))))"
proof -
  have b: "0 + sched_count es < 2 ^ 64" using assms by simp
  from returned_run[OF idinv_init b]
  have r: "map unat (returned (fst (run es (init :: 'a TimerService)))) = [1..<Suc (sched_count es)]"
    by simp
  then have "distinct (map unat (returned (fst (run es (init :: 'a TimerService)))))" by simp
  then have d: "distinct (returned (fst (run es (init :: 'a TimerService))))"
    by (rule distinct_map[THEN iffD1, THEN conjunct1])
  from idinv_run[OF idinv_init b]
  have "distinct (ids (timers (snd (run es (init :: 'a TimerService)))))"
    by (simp add: idinv_def live_def)
  with r d show ?thesis by simp
qed

theorem ids_count_up_from_1_witness:
  "sched_count [Schedule 0 5 ''A'' 0, Work 1, Schedule 2 5 ''B'' 1, Schedule 3 0 ''C'' 0] < 2 ^ 64
   \<and> map unat (returned (fst (run [Schedule 0 5 ''A'' 0, Work 1, Schedule 2 5 ''B'' 1,
         Schedule 3 0 ''C'' 0] init))) = [1, 2, 3]"
  using ids_count_up_from_1[of "[Schedule 0 5 ''A'' 0, Work 1, Schedule 2 5 ''B'' 1, Schedule 3 0 ''C'' 0]"]
  by (simp add: upt_conv_Cons)

subsection \<open>C10: the period is the delay\<close>

text \<open>
  Claim C10 says that the period of a repeating timer is the delay passed to
  \<^verbatim>\<open>schedule\<close>, so that its k-th callback run (k from 0) is due at the clock reading of
  the \<^verbatim>\<open>schedule\<close> call plus \<open>(k + 1) * delay\<close>. The code stores the delay as the
  period (every callback run below has period 5), but it computes each next deadline as
  \<^verbatim>\<open>it->first + data.period\<close> from a node that \<^verbatim>\<open>timers_.erase(it)\<close> has freed. Timer A
  is scheduled at clock reading 0 with delay 5 and \<open>repeat = 2\<close>; the claim has its
  callback runs due at 5, 10 and 15. The worker erases the pair of deadline 5 at clock
  reading 7; a \<^verbatim>\<open>schedule\<close> call for B (deadline 9) gets the freed node before the worker
  reads it. The callback runs of A are those of the deadlines 5, 14 and 19.
\<close>

theorem deadlines_after_node_reuse:
  "map fst (fired_of 1 (fst (run
       [Schedule 0 5 ''A'' 2, Work 7, ScheduleReusing 8 1 ''B'' 0, Work 8, Work 8,
        Work 20, Work 20, Work 20, Work 20, Work 20, Work 20, Work 20, Work 20, Work 20]
       init)))
     = [5, 14, 19]
   \<and> map (\<lambda>x. period (snd x)) (fired_of 1 (fst (run
       [Schedule 0 5 ''A'' 2, Work 7, ScheduleReusing 8 1 ''B'' 0, Work 8, Work 8,
        Work 20, Work 20, Work 20, Work 20, Work 20, Work 20, Work 20, Work 20, Work 20]
       (init :: string TimerService))))
     = [5, 5, 5]
   \<and> map fst (fired_of 1 (fst (run
       [Schedule 0 5 ''A'' 2, Work 7, Schedule 8 1 ''B'' 0, Work 8, Work 8,
        Work 20, Work 20, Work 20, Work 20, Work 20, Work 20, Work 20, Work 20, Work 20]
       (init :: string TimerService))))
     = [5, 10, 15]"
  by (simp add: schedule_def init_def worker_def schedule_until_def reuse_def Let_def
                fired_of_def)

end
